theory Spec2Isabelle
  imports
    Main
    "HOL-Library.Word"
    "HOL-Library.List_Lexorder"
    "HOL-Library.Multiset"
begin

section \<open>Strings and paths\<close>

text \<open>
  A JavaScript string is a sequence of UTF-16 code units. \<open>Array.prototype.sort()\<close> without
  a comparator orders strings lexicographically by code unit; this is the order that
  \<open>List_Lexorder\<close> puts on lists of 16-bit words, and \<^const>\<open>sort\<close> is a stable sort for
  it. \<open>js\<close> writes an ASCII literal as such a string.
\<close>

type_synonym codeUnit = "16 word"

type_synonym jsstring = "codeUnit list"

definition js :: "string \<Rightarrow> jsstring" where
  "js s = map (\<lambda>c. of_nat (of_char c)) s"

definition slash :: codeUnit where
  "slash = 0x2F"

text \<open>
  \<open>path.join\<close> of the POSIX flavour of Node's \<open>path\<close> module, for two arguments: the
  arguments that are not empty are put together with a separator and the result is
  normalised. \<open>normalizeString\<close> walks over the segments between separators: an empty
  segment and \<open>.\<close> are dropped, \<open>..\<close> removes the segment before it unless there is none or
  it is \<open>..\<close> itself, in which case it is kept when the path is relative.
\<close>

fun splitSlash :: "jsstring \<Rightarrow> jsstring list" where
  "splitSlash [] = [[]]"
| "splitSlash (c # cs) =
     (if c = slash then [] # splitSlash cs
      else (case splitSlash cs of seg # segs \<Rightarrow> (c # seg) # segs | [] \<Rightarrow> [[c]]))"

fun pathString :: "jsstring list \<Rightarrow> jsstring" where
  \<comment> \<open>segments or names, written with the separator between them\<close>
  "pathString [] = []"
| "pathString [x] = x"
| "pathString (x # y # ys) = x @ slash # pathString (y # ys)"

definition normalizeStep :: "bool \<Rightarrow> jsstring list \<Rightarrow> jsstring \<Rightarrow> jsstring list" where
  "normalizeStep allowAboveRoot res seg =
     (if seg = [] \<or> seg = js ''.'' then res
      else if seg = js ''..'' then
        (if res \<noteq> [] \<and> last res \<noteq> js ''..'' then butlast res
         else if allowAboveRoot then res @ [js ''..'']
         else res)
      else res @ [seg])"

definition normalizeString :: "jsstring \<Rightarrow> bool \<Rightarrow> jsstring" where
  "normalizeString path allowAboveRoot =
     pathString (foldl (normalizeStep allowAboveRoot) [] (splitSlash path))"

definition normalize :: "jsstring \<Rightarrow> jsstring" where
  "normalize path =
     (if path = [] then js ''.''
      else
        (let isAbsolute = (hd path = slash);
             trailingSeparator = (last path = slash);
             p = normalizeString path (\<not> isAbsolute)
         in if p = [] then
              (if isAbsolute then js ''/'' else if trailingSeparator then js ''./'' else js ''.'')
            else
              (let q = (if trailingSeparator then p @ [slash] else p)
               in if isAbsolute then slash # q else q)))"

definition join :: "jsstring \<Rightarrow> jsstring \<Rightarrow> jsstring" where
  "join a b =
     (if a = [] then (if b = [] then js ''.'' else normalize b)
      else if b = [] then normalize a
      else normalize (a @ slash # b))"

datatype error =
    InvalidPatternError jsstring  \<comment> \<open>the \<open>SyntaxError\<close> of \<open>new RegExp(pattern)\<close>\<close>
  | FilesystemError jsstring      \<comment> \<open>the error of a failed file-system call at a path\<close>
  | JSONSyntaxError               \<comment> \<open>the \<open>SyntaxError\<close> of \<open>JSON.parse\<close>\<close>
  | TypeError                     \<comment> \<open>reading a property of \<open>null\<close>\<close>

section \<open>Regular expressions\<close>

text \<open>
  The regular-expression engine belongs to the runtime. A \<open>RegExp\<close> object without the
  \<open>g\<close> and \<open>y\<close> flags is represented by its match predicate: \<open>test\<close> on it is a pure
  function of the string. A \<open>RegExp\<close> object with the \<open>g\<close> or \<open>y\<close> flag is a reference to
  an object with a mutable \<open>lastIndex\<close>: \<open>test\<close> starts matching at \<open>lastIndex\<close>, stores the
  end of the match there on success and \<open>0\<close> on failure. Such an object is given by its
  identity and by its matcher, which takes the string and the start index and returns the
  end index of the match found. The \<open>lastIndex\<close> of these objects is part of the world,
  indexed by identity, so an object that occurs twice in a list, or is used by both
  traversals, is one object.
\<close>

datatype RegExp =
    Plain "jsstring \<Rightarrow> bool"
  | Global nat "jsstring \<Rightarrow> nat \<Rightarrow> nat option"

datatype pattern = PString jsstring | PRegExp RegExp

datatype event = Readdir jsstring bool | Stat jsstring bool

record world =
  lastIndex :: "nat \<Rightarrow> nat"
  fscalls :: "event list"

fun test :: "RegExp \<Rightarrow> jsstring \<Rightarrow> world \<Rightarrow> bool \<times> world" where
  "test (Plain m) s w = (m s, w)"
| "test (Global a exec) s w =
     (case exec s (lastIndex w a) of
        None \<Rightarrow> (False, w\<lparr>lastIndex := (lastIndex w)(a := 0)\<rparr>)
      | Some e \<Rightarrow> (True, w\<lparr>lastIndex := (lastIndex w)(a := e)\<rparr>))"

text \<open>\<open>ignorePatterns.some(pattern => pattern.test(relativePath))\<close> stops at the first
  pattern whose test succeeds.\<close>

fun some_test :: "RegExp list \<Rightarrow> jsstring \<Rightarrow> world \<Rightarrow> bool \<times> world" where
  "some_test [] s w = (False, w)"
| "some_test (p # ps) s w =
     (case test p s w of
        (True, w') \<Rightarrow> (True, w')
      | (False, w') \<Rightarrow> some_test ps s w')"

section \<open>The file system\<close>

text \<open>
  What the file system holds at a path: a \<open>File\<close> is anything \<open>statSync\<close> reports as not a
  directory; a \<open>Dir\<close> lists its entries, each with what is found there; a \<open>LockedDir\<close> is
  a directory that \<open>statSync\<close> sees and \<open>readdirSync\<close> cannot list; at a \<open>Dangling\<close> path
  both calls fail (a missing path, a dangling link). The tree is finite: the program has
  no protection against cycles of links.
\<close>

datatype node = File | Dir "(jsstring \<times> node) list" | LockedDir | Dangling

definition logcall :: "event \<Rightarrow> world \<Rightarrow> world" where
  "logcall ev w = w\<lparr>fscalls := fscalls w @ [ev]\<rparr>"

fun readdirSync :: "jsstring \<Rightarrow> node \<Rightarrow> world \<Rightarrow> (error + (jsstring \<times> node) list) \<times> world" where
  "readdirSync path (Dir es) w = (Inr es, logcall (Readdir path True) w)"
| "readdirSync path n w = (Inl (FilesystemError path), logcall (Readdir path False) w)"

fun statSync :: "jsstring \<Rightarrow> node \<Rightarrow> world \<Rightarrow> (error + bool) \<times> world" where
  "statSync path Dangling w = (Inl (FilesystemError path), logcall (Stat path False) w)"
| "statSync path File w = (Inr False, logcall (Stat path True) w)"
| "statSync path n w = (Inr True, logcall (Stat path True) w)"

section \<open>collectPaths\<close>

text \<open>
  \<open>collectPaths(baseDir, currentDir, ignorePatterns)\<close>. The model carries, next to the two
  path strings, what the file system holds at \<open>currentDir\<close> and the entry names that lead
  from \<open>baseDir\<close> to \<open>currentDir\<close>. \<open>fullPath\<close> is \<open>join(currentDir, entry)\<close> as in the
  source. \<open>readdirSync\<close> returns names of directory entries: they are not empty, hold no
  separator and are never \<open>.\<close> or \<open>..\<close>; so \<open>fullPath\<close> is the path of \<open>baseDir\<close> followed
  by the names that lead to the entry, and \<open>relative(baseDir, fullPath)\<close>, which resolves
  both of its arguments against the working directory, is these names written with the
  separator, whatever form the string \<open>baseDir\<close> has.
\<close>

function collectPaths ::
    "jsstring \<Rightarrow> jsstring \<Rightarrow> jsstring list \<Rightarrow> node \<Rightarrow> RegExp list \<Rightarrow> world
       \<Rightarrow> (error + jsstring list) \<times> world"
  and collectLoop ::
    "jsstring \<Rightarrow> jsstring \<Rightarrow> jsstring list \<Rightarrow> (jsstring \<times> node) list \<Rightarrow> RegExp list
       \<Rightarrow> jsstring list \<Rightarrow> world \<Rightarrow> (error + jsstring list) \<times> world"
where
  "collectPaths baseDir currentDir names n ignorePatterns w =
     (case readdirSync currentDir n w of
        (Inl e, w1) \<Rightarrow> (Inl e, w1)
      | (Inr entries, w1) \<Rightarrow>
          collectLoop baseDir currentDir names entries ignorePatterns [] w1)"
| "collectLoop baseDir currentDir names [] ignorePatterns paths w = (Inr paths, w)"
| "collectLoop baseDir currentDir names ((entry, n) # entries) ignorePatterns paths w =
     (let fullPath = join currentDir entry;
          relativePath = pathString (names @ [entry])
      in case some_test ignorePatterns relativePath w of
           (True, w1) \<Rightarrow>
             collectLoop baseDir currentDir names entries ignorePatterns paths w1
         | (False, w1) \<Rightarrow>
             (case statSync fullPath n w1 of
                (Inl e, w2) \<Rightarrow> (Inl e, w2)
              | (Inr True, w2) \<Rightarrow>
                  (case collectPaths baseDir fullPath (names @ [entry]) n ignorePatterns w2 of
                     (Inl e, w3) \<Rightarrow> (Inl e, w3)
                   | (Inr sub, w3) \<Rightarrow>
                       collectLoop baseDir currentDir names entries ignorePatterns
                         (paths @ sub) w3)
              | (Inr False, w2) \<Rightarrow>
                  collectLoop baseDir currentDir names entries ignorePatterns
                    (paths @ [relativePath]) w2))"
  by pat_completeness auto
termination
proof (relation "measure (\<lambda>x. case x of
      Inl (b, c, ns, n, ps, w) \<Rightarrow> 2 * size n + 1
    | Inr (b, c, ns, es, ps, acc, w) \<Rightarrow> 2 * size_list (size_prod (\<lambda>_. 0) size) es)",
    goal_cases)
  case (2 baseDir currentDir names n ignorePatterns w x entries w1)
  then show ?case by (cases n) auto
qed auto

declare collectPaths.simps [simp del]

section \<open>compareDirectories\<close>

record DiffResult =
  onlyInFirst :: "jsstring list"
  onlyInSecond :: "jsstring list"
  inBoth :: "jsstring list"

text \<open>
  \<open>new RegExp(pattern)\<close> is the engine's compiler, a parameter of the model: it returns the
  match predicate of the pattern, or nothing when the pattern is not a valid regular
  expression and the constructor throws. The object it makes has no flags.
\<close>

type_synonym engine = "jsstring \<Rightarrow> (jsstring \<Rightarrow> bool) option"

definition newRegExp :: "engine \<Rightarrow> jsstring \<Rightarrow> error + RegExp" where
  "newRegExp compile pat =
     (case compile pat of
        None \<Rightarrow> Inl (InvalidPatternError pat)
      | Some m \<Rightarrow> Inr (Plain m))"

text \<open>\<open>Array.prototype.map\<close> with a callback that may throw: the first exception ends it.\<close>

fun mapE :: "('a \<Rightarrow> error + 'b) \<Rightarrow> 'a list \<Rightarrow> error + 'b list" where
  "mapE f [] = Inr []"
| "mapE f (x # xs) =
     (case f x of
        Inl e \<Rightarrow> Inl e
      | Inr y \<Rightarrow> (case mapE f xs of Inl e \<Rightarrow> Inl e | Inr ys \<Rightarrow> Inr (y # ys)))"

fun toRegExp :: "engine \<Rightarrow> pattern \<Rightarrow> error + RegExp" where
  \<comment> \<open>\<open>pattern instanceof RegExp ? pattern : new RegExp(pattern)\<close>\<close>
  "toRegExp compile (PRegExp r) = Inr r"
| "toRegExp compile (PString pat) = newRegExp compile pat"

definition patternsToRegExp :: "engine \<Rightarrow> jsstring list \<Rightarrow> error + RegExp list" where
  "patternsToRegExp compile patterns = mapE (newRegExp compile) patterns"

text \<open>The file system is given by what is found at each root path.\<close>

definition compareDirectories ::
    "engine \<Rightarrow> (jsstring \<Rightarrow> node) \<Rightarrow> jsstring \<Rightarrow> jsstring \<Rightarrow> pattern list \<Rightarrow> world
       \<Rightarrow> (error + DiffResult) \<times> world" where
  "compareDirectories compile fs dir1 dir2 ignorePatterns w =
     (case mapE (toRegExp compile) ignorePatterns of
        Inl e \<Rightarrow> (Inl e, w)
      | Inr regexPatterns \<Rightarrow>
          (case collectPaths dir1 dir1 [] (fs dir1) regexPatterns w of
             (Inl e, w1) \<Rightarrow> (Inl e, w1)
           | (Inr collected1, w1) \<Rightarrow>
               (case collectPaths dir2 dir2 [] (fs dir2) regexPatterns w1 of
                  (Inl e, w2) \<Rightarrow> (Inl e, w2)
                | (Inr collected2, w2) \<Rightarrow>
                    (let paths1 = sort collected1;
                         paths2 = sort collected2;
                         onlyInFirst = filter (\<lambda>path. path \<notin> set paths2) paths1;
                         onlyInSecond = filter (\<lambda>path. path \<notin> set paths1) paths2;
                         inBoth = filter (\<lambda>path. path \<in> set paths2) paths1
                     in (Inr \<lparr> onlyInFirst = map (join dir1) onlyInFirst,
                                onlyInSecond = map (join dir2) onlyInSecond,
                                inBoth = map (join dir1) inBoth \<rparr>, w2)))))"

section \<open>printDifferences\<close>

definition digit :: "nat \<Rightarrow> codeUnit" where
  "digit d = of_nat (48 + d)"

fun decimal :: "nat \<Rightarrow> jsstring" where
  "decimal n = (if n < 10 then [digit n] else decimal (n div 10) @ [digit (n mod 10)])"

declare decimal.simps [simp del]

definition countLine :: "DiffResult \<Rightarrow> jsstring" where
  \<comment> \<open>\<open>Found <N> identical paths, <M> differences\<close>\<close>
  "countLine diff =
     js ''Found '' @ decimal (length (inBoth diff)) @ js '' identical paths, ''
       @ decimal (length (onlyInFirst diff) + length (onlyInSecond diff)) @ js '' differences''"

text \<open>
  The result is the list of the arguments of the \<open>console.log\<close> calls, in order; each call
  prints its argument and a newline. \<open>resolve\<close> is \<open>path.resolve\<close>, which depends on the
  working directory. The check mark is the code unit \<open>U+2705\<close>.
\<close>

definition printDifferences ::
    "(jsstring \<Rightarrow> jsstring) \<Rightarrow> jsstring \<Rightarrow> jsstring \<Rightarrow> DiffResult \<Rightarrow> jsstring list" where
  "printDifferences resolve dir1 dir2 diff =
     [js ''Directory Structure Comparison:'', js ''===============================''] @
     (if length (onlyInFirst diff) = 0 \<and> length (onlyInSecond diff) = 0
      then [[0x2705] @ js '' Directories are identical'']
      else
        (if length (onlyInFirst diff) > 0
         then [[0x0A] @ js ''Only in '' @ [0x22] @ resolve dir1 @ [0x22] @ js '':'']
                @ map (\<lambda>path. js '' - '' @ path) (onlyInFirst diff)
         else []) @
        (if length (onlyInSecond diff) > 0
         then [[0x0A] @ js ''Only in '' @ [0x22] @ resolve dir2 @ [0x22] @ js '':'']
                @ map (\<lambda>path. js '' - '' @ path) (onlyInSecond diff)
         else []) @
        [[0x0A] @ countLine diff])"

section \<open>loadConfig\<close>

datatype json =
    JNull | JBool bool | JNumber int | JString jsstring
  | JArray "json list" | JObject "(jsstring \<times> json) list"

text \<open>
  The state of \<open>.bdgrc.json\<close> in the working directory: absent (\<open>existsSync\<close> is false),
  present and not readable (\<open>readFileSync\<close> throws), or present with a content.
  \<open>JSON.parse\<close> is a parameter: it returns the parsed value, or nothing when it throws.
  An object lists each of its properties once.
\<close>

datatype configFile = Absent | Unreadable | Content jsstring

datatype console = Warn jsstring | Error jsstring error

definition emptyConfig :: json where
  "emptyConfig = JObject [(js ''ignorePaths'', JArray [])]"

fun existsSync :: "configFile \<Rightarrow> bool" where
  "existsSync Absent = False"
| "existsSync _ = True"

fun readFileSync :: "configFile \<Rightarrow> error + jsstring" where
  "readFileSync (Content s) = Inr s"
| "readFileSync _ = Inl (FilesystemError (js ''.bdgrc.json''))"

fun ignorePathsOf :: "json \<Rightarrow> error + json option" where
  \<comment> \<open>\<open>parsedConfig.ignorePaths\<close>: throws on \<open>null\<close>, is \<open>undefined\<close> on a value without
      that property\<close>
  "ignorePathsOf JNull = Inl TypeError"
| "ignorePathsOf (JObject props) = Inr (map_of props (js ''ignorePaths''))"
| "ignorePathsOf _ = Inr None"

fun isArray :: "json option \<Rightarrow> bool" where
  \<comment> \<open>\<open>typeof v === 'object' && Array.isArray(v)\<close>\<close>
  "isArray (Some (JArray xs)) = True"
| "isArray _ = False"

definition loadConfigTry :: "(jsstring \<Rightarrow> json option) \<Rightarrow> configFile \<Rightarrow> error + json option" where
  \<comment> \<open>the body of the \<open>try\<close>: the value returned from inside it, if any\<close>
  "loadConfigTry parse file =
     (case readFileSync file of
        Inl e \<Rightarrow> Inl e
      | Inr configContent \<Rightarrow>
          (case parse configContent of
             None \<Rightarrow> Inl JSONSyntaxError
           | Some parsedConfig \<Rightarrow>
               (case ignorePathsOf parsedConfig of
                  Inl e \<Rightarrow> Inl e
                | Inr v \<Rightarrow> if isArray v then Inr (Some parsedConfig) else Inr None)))"

definition loadConfig :: "(jsstring \<Rightarrow> json option) \<Rightarrow> configFile \<Rightarrow> json \<times> console list" where
  "loadConfig parse file =
     (if existsSync file then
        (case loadConfigTry parse file of
           Inr (Some parsedConfig) \<Rightarrow> (parsedConfig, [])
         | Inr None \<Rightarrow>
             (emptyConfig,
              [Warn (js ''Invalid config format in .bdgrc.json, using empty ignore list.'')])
         | Inl e \<Rightarrow> (emptyConfig, [Error (js ''Error loading config from .bdgrc.json:'') e]))
      else (emptyConfig, [Warn (js ''.bdgrc.json not found, using empty ignore list.'')]))"

section \<open>What the traversal should see\<close>

text \<open>
  A pattern matches a path when a test started at index \<open>0\<close> succeeds. The patterns of a
  list are stateless when the \<open>RegExp\<close> objects among them carry neither the \<open>g\<close> nor the
  \<open>y\<close> flag; every pattern given as a string is stateless.
\<close>

fun matches :: "RegExp \<Rightarrow> jsstring \<Rightarrow> bool" where
  "matches (Plain m) s = m s"
| "matches (Global a exec) s = (exec s 0 \<noteq> None)"

fun plain :: "RegExp \<Rightarrow> bool" where
  "plain (Plain m) = True"
| "plain (Global a exec) = False"

definition ignored :: "RegExp list \<Rightarrow> jsstring \<Rightarrow> bool" where
  "ignored regexPatterns s = (\<exists>p \<in> set regexPatterns. matches p s)"

fun patternMatches :: "engine \<Rightarrow> pattern \<Rightarrow> jsstring \<Rightarrow> bool" where
  "patternMatches compile (PString pat) s = (case compile pat of None \<Rightarrow> False | Some m \<Rightarrow> m s)"
| "patternMatches compile (PRegExp r) s = matches r s"

fun stateless :: "pattern \<Rightarrow> bool" where
  "stateless (PString pat) = True"
| "stateless (PRegExp r) = plain r"

text \<open>
  The nodes found below a node by following a list of names (a list, since the model does
  not exclude a directory that lists a name twice), the files among them, and the paths
  that the ignore patterns leave visible: no entry on the way, the last one included, is
  ignored.
\<close>

fun nodesAt :: "node \<Rightarrow> jsstring list \<Rightarrow> node list" where
  "nodesAt n [] = [n]"
| "nodesAt n (name # names) =
     (case n of
        Dir entries \<Rightarrow>
          concat (map (\<lambda>(entry, c). if entry = name then nodesAt c names else []) entries)
      | _ \<Rightarrow> [])"

definition fileAt :: "node \<Rightarrow> jsstring list \<Rightarrow> bool" where
  "fileAt n names = (File \<in> set (nodesAt n names))"

definition unreadableAt :: "node \<Rightarrow> jsstring list \<Rightarrow> bool" where
  "unreadableAt n names =
     (LockedDir \<in> set (nodesAt n names) \<or> Dangling \<in> set (nodesAt n names))"

definition visible :: "(jsstring \<Rightarrow> bool) \<Rightarrow> jsstring list \<Rightarrow> bool" where
  "visible ign names = (\<forall>k \<in> {1..length names}. \<not> ign (pathString (take k names)))"

definition visibleFrom :: "(jsstring \<Rightarrow> bool) \<Rightarrow> jsstring list \<Rightarrow> jsstring list \<Rightarrow> bool" where
  \<comment> \<open>the same below a directory that is reached by the names \<open>dir\<close>\<close>
  "visibleFrom ign dir names =
     (\<forall>k \<in> {1..length names}. \<not> ign (pathString (dir @ take k names)))"

definition pathBelow :: "jsstring \<Rightarrow> jsstring list \<Rightarrow> jsstring" where
  \<comment> \<open>the path of the entry that names lead to below a directory, as the traversal
      builds it: one \<open>join\<close> for each name\<close>
  "pathBelow dir names = foldl join dir names"

text \<open>File systems do not allow the separator inside a name.\<close>

fun wellNamed :: "node \<Rightarrow> bool" where
  "wellNamed (Dir entries) = (\<forall>(entry, n) \<in> set entries. slash \<notin> set entry \<and> wellNamed n)"
| "wellNamed n = True"

definition underneath :: "jsstring \<Rightarrow> jsstring \<Rightarrow> bool" where
  \<comment> \<open>\<open>p\<close> is a path below the path \<open>q\<close>\<close>
  "underneath q p = (take (Suc (length q)) p = q @ [slash])"

fun succeeded :: "event \<Rightarrow> bool" where
  "succeeded (Readdir path ok) = ok"
| "succeeded (Stat path ok) = ok"

fun pathOf :: "event \<Rightarrow> jsstring" where
  "pathOf (Readdir path ok) = path"
| "pathOf (Stat path ok) = path"

text \<open>
  A run is fail-fast when its file-system calls account for its result: a run that returns
  made successful calls only, and a run that ends with an error made successful calls
  followed by one failed call, the last, whose error it is.
\<close>

fun failFast :: "error + 'a \<Rightarrow> event list \<Rightarrow> bool" where
  "failFast (Inr v) calls = list_all succeeded calls"
| "failFast (Inl e) calls =
     (calls \<noteq> [] \<and> list_all succeeded (butlast calls) \<and> \<not> succeeded (last calls) \<and>
      e = FilesystemError (pathOf (last calls)))"

definition failsAt :: "node \<Rightarrow> jsstring list \<Rightarrow> bool" where
  \<comment> \<open>below a root, a call fails at the entry the names lead to: at the root when it is
      not a directory that can be listed, below it at a directory that cannot be listed
      and at a path that \<open>statSync\<close> cannot resolve\<close>
  "failsAt root names = (unreadableAt root names \<or> (names = [] \<and> root = File))"

text \<open>
  The traversal without its effects, for patterns whose test has no state: the paths
  \<open>collectPaths\<close> returns, or the error of the first call that fails.
\<close>

fun visibleFiles ::
    "jsstring \<Rightarrow> (jsstring \<Rightarrow> bool) \<Rightarrow> jsstring list \<Rightarrow> node \<Rightarrow> error + jsstring list"
  and visibleEntries ::
    "jsstring \<Rightarrow> (jsstring \<Rightarrow> bool) \<Rightarrow> jsstring list \<Rightarrow> (jsstring \<times> node) list
       \<Rightarrow> error + jsstring list"
where
  "visibleFiles currentDir ign names (Dir entries) = visibleEntries currentDir ign names entries"
| "visibleFiles currentDir ign names File = Inl (FilesystemError currentDir)"
| "visibleFiles currentDir ign names LockedDir = Inl (FilesystemError currentDir)"
| "visibleFiles currentDir ign names Dangling = Inl (FilesystemError currentDir)"
| "visibleEntries currentDir ign names [] = Inr []"
| "visibleEntries currentDir ign names ((entry, n) # entries) =
     (if ign (pathString (names @ [entry])) then visibleEntries currentDir ign names entries
      else if n = Dangling
        then Inl (FilesystemError (join currentDir entry))
      else if n = File
        then (case visibleEntries currentDir ign names entries of
                Inl e \<Rightarrow> Inl e
              | Inr rest \<Rightarrow> Inr (pathString (names @ [entry]) # rest))
      else (case visibleFiles (join currentDir entry) ign (names @ [entry]) n of
              Inl e \<Rightarrow> Inl e
            | Inr sub \<Rightarrow>
                (case visibleEntries currentDir ign names entries of
                   Inl e \<Rightarrow> Inl e
                 | Inr rest \<Rightarrow> Inr (sub @ rest))))"

section \<open>Sample inputs\<close>

definition world0 :: world where
  \<comment> \<open>no \<open>RegExp\<close> object has been used, no call has been made\<close>
  "world0 = \<lparr> lastIndex = (\<lambda>a. 0), fscalls = [] \<rparr>"

definition sampleEngine :: engine where
  \<comment> \<open>the engine on the patterns of the examples; \<open>(\<close> is not a regular expression\<close>
  "sampleEngine pat =
     (if pat = js ''^b/'' then Some (\<lambda>s. take 2 s = js ''b/'')
      else if pat = js ''^b$'' then Some (\<lambda>s. s = js ''b'')
      else if pat = js ''^a'' then Some (\<lambda>s. take 1 s = js ''a'')
      else None)"

definition sampleFs :: "jsstring \<Rightarrow> node" where
  \<comment> \<open>\<open>dir1\<close> holds \<open>a.txt\<close> and \<open>b/c.txt\<close>, \<open>dir2\<close> holds \<open>a.txt\<close> and \<open>b/d.txt\<close>\<close>
  "sampleFs dir =
     (if dir = js ''dir1''
        then Dir [(js ''b'', Dir [(js ''c.txt'', File)]), (js ''a.txt'', File)]
      else if dir = js ''dir2''
        then Dir [(js ''a.txt'', File), (js ''b'', Dir [(js ''d.txt'', File)])]
      else Dangling)"

definition sampleDiff :: DiffResult where
  "sampleDiff = \<lparr> onlyInFirst = [js ''dir1/b/c.txt''],
                   onlyInSecond = [js ''dir2/b/d.txt''],
                   inBoth = [js ''dir1/a.txt''] \<rparr>"

definition dottedFs :: "jsstring \<Rightarrow> node" where
  \<comment> \<open>the same two trees, reached as \<open>.\<close> and as \<open>../other/\<close>\<close>
  "dottedFs dir =
     (if dir = js ''.''
        then Dir [(js ''b'', Dir [(js ''c.txt'', File)]), (js ''a.txt'', File)]
      else if dir = js ''../other/''
        then Dir [(js ''a.txt'', File), (js ''b'', Dir [(js ''d.txt'', File)])]
      else Dangling)"

definition dottedDiff :: DiffResult where
  "dottedDiff = \<lparr> onlyInFirst = [js ''b/c.txt''],
                   onlyInSecond = [js ''../other/b/d.txt''],
                   inBoth = [js ''a.txt''] \<rparr>"

definition unicodeFs :: "jsstring \<Rightarrow> node" where
  \<comment> \<open>entries in an order that is not the sorted one; among the names of \<open>dir1\<close> are
      \<open>U+FF5E\<close> and \<open>U+1F600\<close>, the latter the surrogate pair \<open>D83D DE00\<close>\<close>
  "unicodeFs dir =
     (if dir = js ''dir1''
        then Dir [(js ''z'', File), ([0xFF5E], File), ([0xD83D, 0xDE00], File),
                  (js ''b'', Dir [(js ''x.txt'', File), (js ''c.txt'', File)]),
                  (js ''a.txt'', File)]
      else if dir = js ''dir2''
        then Dir [(js ''y'', File),
                  (js ''b'', Dir [(js ''d.txt'', File), (js ''c.txt'', File)]),
                  (js ''a.txt'', File), (js ''q'', File)]
      else Dangling)"

definition unicodeDiff :: DiffResult where
  "unicodeDiff =
     \<lparr> onlyInFirst = [js ''dir1/b/x.txt'', js ''dir1/z'', js ''dir1/'' @ [0xD83D, 0xDE00],
                       js ''dir1/'' @ [0xFF5E]],
       onlyInSecond = [js ''dir2/b/d.txt'', js ''dir2/q'', js ''dir2/y''],
       inBoth = [js ''dir1/a.txt'', js ''dir1/b/c.txt''] \<rparr>"

definition repeatFs :: "jsstring \<Rightarrow> node" where
  \<comment> \<open>directories that list a name twice\<close>
  "repeatFs dir =
     (if dir = js ''dir1''
        then Dir [(js ''c'', File), (js ''a'', File), (js ''c'', File), (js ''a'', File)]
      else if dir = js ''dir2''
        then Dir [(js ''d'', File), (js ''a'', File), (js ''d'', File)]
      else Dangling)"

definition repeatDiff :: DiffResult where
  "repeatDiff = \<lparr> onlyInFirst = [js ''dir1/c'', js ''dir1/c''],
                   onlyInSecond = [js ''dir2/d'', js ''dir2/d''],
                   inBoth = [js ''dir1/a'', js ''dir1/a''] \<rparr>"

definition emptyFs :: "jsstring \<Rightarrow> node" where
  \<comment> \<open>both roots are empty directories\<close>
  "emptyFs dir = (if dir = js ''dir1'' \<or> dir = js ''dir2'' then Dir [] else Dangling)"

definition lockedFs :: "jsstring \<Rightarrow> node" where
  \<comment> \<open>\<open>dir1\<close> holds a subdirectory without read permission\<close>
  "lockedFs dir =
     (if dir = js ''dir1'' then Dir [(js ''a.txt'', File), (js ''secret'', LockedDir)]
      else if dir = js ''dir2'' then Dir [(js ''a.txt'', File)]
      else Dangling)"

definition literal_a :: "jsstring \<Rightarrow> nat \<Rightarrow> nat option" where
  \<comment> \<open>the matcher of \<open>/a/g\<close>: the first \<open>a\<close> at or after the start index\<close>
  "literal_a s i =
     (if 0x61 \<in> set (drop i s)
      then Some (i + length (takeWhile (\<lambda>c. c \<noteq> 0x61) (drop i s)) + 1)
      else None)"

definition twinFs :: "jsstring \<Rightarrow> node" where
  \<comment> \<open>two roots, each holding the single file \<open>a\<close>\<close>
  "twinFs dir = (if dir = js ''A'' \<or> dir = js ''B'' then Dir [(js ''a'', File)] else Dangling)"

definition identicalDiff :: DiffResult where
  "identicalDiff = \<lparr> onlyInFirst = [], onlyInSecond = [], inBoth = [js ''dir1/a.txt''] \<rparr>"

definition sampleConfigText :: jsstring where
  \<open>sampleConfigText = js ''{"ignorePaths": ["^b/"]}''\<close>

definition sampleParse :: "jsstring \<Rightarrow> json option" where
  \<comment> \<open>\<open>JSON.parse\<close> on the texts of the examples\<close>
  "sampleParse text =
     (if text = sampleConfigText
        then Some (JObject [(js ''ignorePaths'', JArray [JString (js ''^b/'')])])
      else if text = js ''{}'' then Some (JObject [])
      else if text = js ''null'' then Some JNull
      else None)"

definition readDecimal :: "jsstring \<Rightarrow> nat" where
  \<comment> \<open>the number a string of digits denotes\<close>
  "readDecimal s = foldl (\<lambda>v c. 10 * v + (unat c - 48)) 0 s"

section \<open>Auxiliary facts\<close>

lemma js_slash: "js ''/'' = [slash]"
  by (simp add: js_def slash_def)

lemma join_examples:
  "join (js ''dir1'') (js ''b/c.txt'') = js ''dir1/b/c.txt''"
  "join (js ''.'') (js ''c.txt'') = js ''c.txt''"
  "join (js ''dir1/'') (js ''a.txt'') = js ''dir1/a.txt''"
  "join (js ''/'') (js ''a.txt'') = js ''/a.txt''"
  "join (js ''./x//y/../z'') (js ''a.txt'') = js ''x/z/a.txt''"
  "join (js ''../up'') (js ''a.txt'') = js ''../up/a.txt''"
  "join (js ''dir1'') [] = js ''dir1''"
  "join [] (js ''a.txt'') = js ''a.txt''"
  by code_simp+

lemma compareDirectories_returns:
  assumes "fst (compareDirectories compile fs dir1 dir2 ignorePatterns w) = Inr diff"
  shows "\<exists>regexPatterns snapshot1 w1 snapshot2 w2.
           mapE (toRegExp compile) ignorePatterns = Inr regexPatterns \<and>
           collectPaths dir1 dir1 [] (fs dir1) regexPatterns w = (Inr snapshot1, w1) \<and>
           collectPaths dir2 dir2 [] (fs dir2) regexPatterns w1 = (Inr snapshot2, w2) \<and>
           compareDirectories compile fs dir1 dir2 ignorePatterns w = (Inr diff, w2) \<and>
           onlyInFirst diff =
             map (join dir1) (filter (\<lambda>path. path \<notin> set snapshot2) (sort snapshot1)) \<and>
           onlyInSecond diff =
             map (join dir2) (filter (\<lambda>path. path \<notin> set snapshot1) (sort snapshot2)) \<and>
           inBoth diff =
             map (join dir1) (filter (\<lambda>path. path \<in> set snapshot2) (sort snapshot1))"
  using assms
  by (auto simp: compareDirectories_def Let_def split: sum.splits prod.splits)

lemma compareDirectories_runs:
  assumes "mapE (toRegExp compile) ignorePatterns = Inr regexPatterns"
    and "collectPaths dir1 dir1 [] (fs dir1) regexPatterns w = (Inr snapshot1, w1)"
    and "collectPaths dir2 dir2 [] (fs dir2) regexPatterns w1 = (Inr snapshot2, w2)"
  shows "fst (compareDirectories compile fs dir1 dir2 ignorePatterns w) =
    Inr \<lparr> onlyInFirst =
            map (join dir1) (filter (\<lambda>path. path \<notin> set snapshot2) (sort snapshot1)),
          onlyInSecond =
            map (join dir2) (filter (\<lambda>path. path \<notin> set snapshot1) (sort snapshot2)),
          inBoth =
            map (join dir1) (filter (\<lambda>path. path \<in> set snapshot2) (sort snapshot1)) \<rparr>"
  using assms by (simp add: compareDirectories_def Let_def)

lemma sample_run:
  "fst (compareDirectories sampleEngine sampleFs (js ''dir1'') (js ''dir2'') [] world0)
     = Inr sampleDiff"
  by code_simp

lemma dotted_run:
  "fst (compareDirectories sampleEngine dottedFs (js ''.'') (js ''../other/'') [] world0)
     = Inr dottedDiff"
  by code_simp

lemma unicode_run:
  "fst (compareDirectories sampleEngine unicodeFs (js ''dir1'') (js ''dir2'') [] world0)
     = Inr unicodeDiff"
  by code_simp

lemma repeat_run:
  "fst (compareDirectories sampleEngine repeatFs (js ''dir1'') (js ''dir2'') [] world0)
     = Inr repeatDiff"
  by code_simp

section \<open>The scenarios of the specification\<close>

lemma scenario_ignored_subtree:
  "fst (compareDirectories sampleEngine sampleFs (js ''dir1'') (js ''dir2'')
          [PString (js ''^b/'')] world0)
     = Inr \<lparr> onlyInFirst = [], onlyInSecond = [], inBoth = [js ''dir1/a.txt''] \<rparr>"
  by code_simp

lemma scenario_empty_directories:
  "fst (compareDirectories sampleEngine emptyFs (js ''dir1'') (js ''dir2'') [] world0)
     = Inr \<lparr> onlyInFirst = [], onlyInSecond = [], inBoth = [] \<rparr>"
  "printDifferences id (js ''dir1'') (js ''dir2'')
       \<lparr> onlyInFirst = [], onlyInSecond = [], inBoth = [] \<rparr>
     = [js ''Directory Structure Comparison:'', js ''==============================='',
        [0x2705] @ js '' Directories are identical'']"
  by code_simp+

lemma scenario_invalid_pattern:
  "compareDirectories sampleEngine sampleFs (js ''dir1'') (js ''dir2'') [PString (js ''('')] world0
     = (Inl (InvalidPatternError (js ''('')), world0)"
  by (simp add: compareDirectories_def newRegExp_def sampleEngine_def js_def)

lemma scenario_unreadable_subdirectory:
  "fst (compareDirectories sampleEngine lockedFs (js ''dir1'') (js ''dir2'') [] world0)
     = Inl (FilesystemError (js ''dir1/secret''))"
  by code_simp

section \<open>The partition\<close>

lemma dotted_snapshots:
  "fst (collectPaths (js ''.'') (js ''.'') [] (dottedFs (js ''.'')) [] world0)
     = Inr [js ''b/c.txt'', js ''a.txt'']"
  "fst (collectPaths (js ''../other/'') (js ''../other/'') [] (dottedFs (js ''../other/'')) []
          (snd (collectPaths (js ''.'') (js ''.'') [] (dottedFs (js ''.'')) [] world0)))
     = Inr [js ''a.txt'', js ''b/d.txt'']"
  by code_simp+

lemma unicode_snapshots:
  "fst (collectPaths (js ''dir1'') (js ''dir1'') [] (unicodeFs (js ''dir1'')) [] world0)
     = Inr [js ''z'', [0xFF5E], [0xD83D, 0xDE00], js ''b/x.txt'', js ''b/c.txt'', js ''a.txt'']"
  "fst (collectPaths (js ''dir2'') (js ''dir2'') [] (unicodeFs (js ''dir2'')) []
          (snd (collectPaths (js ''dir1'') (js ''dir1'') [] (unicodeFs (js ''dir1'')) [] world0)))
     = Inr [js ''y'', js ''b/d.txt'', js ''b/c.txt'', js ''a.txt'', js ''q'']"
  by code_simp+

lemma unicode_buckets:
  "filter (\<lambda>path. path \<notin> set [js ''y'', js ''b/d.txt'', js ''b/c.txt'', js ''a.txt'', js ''q''])
     (sort [js ''z'', [0xFF5E], [0xD83D, 0xDE00], js ''b/x.txt'', js ''b/c.txt'', js ''a.txt''])
   = [js ''b/x.txt'', js ''z'', [0xD83D, 0xDE00], [0xFF5E]]"
  "filter (\<lambda>path. path \<notin> set [js ''z'', [0xFF5E], [0xD83D, 0xDE00], js ''b/x.txt'',
                                 js ''b/c.txt'', js ''a.txt''])
     (sort [js ''y'', js ''b/d.txt'', js ''b/c.txt'', js ''a.txt'', js ''q''])
   = [js ''b/d.txt'', js ''q'', js ''y'']"
  "filter (\<lambda>path. path \<in> set [js ''y'', js ''b/d.txt'', js ''b/c.txt'', js ''a.txt'', js ''q''])
     (sort [js ''z'', [0xFF5E], [0xD83D, 0xDE00], js ''b/x.txt'', js ''b/c.txt'', js ''a.txt''])
   = [js ''a.txt'', js ''b/c.txt'']"
  by code_simp+

lemma repeat_snapshots:
  "fst (collectPaths (js ''dir1'') (js ''dir1'') [] (repeatFs (js ''dir1'')) [] world0)
     = Inr [js ''c'', js ''a'', js ''c'', js ''a'']"
  "fst (collectPaths (js ''dir2'') (js ''dir2'') [] (repeatFs (js ''dir2'')) []
          (snd (collectPaths (js ''dir1'') (js ''dir1'') [] (repeatFs (js ''dir1'')) [] world0)))
     = Inr [js ''d'', js ''a'', js ''d'']"
  by code_simp+

lemma repeat_buckets:
  "map (join (js ''dir1''))
     (filter (\<lambda>path. path \<notin> set [js ''d'', js ''a'', js ''d''])
        (sort [js ''c'', js ''a'', js ''c'', js ''a'']))
   = [js ''dir1/c'', js ''dir1/c'']"
  "map (join (js ''dir2''))
     (filter (\<lambda>path. path \<notin> set [js ''c'', js ''a'', js ''c'', js ''a''])
        (sort [js ''d'', js ''a'', js ''d'']))
   = [js ''dir2/d'', js ''dir2/d'']"
  "map (join (js ''dir1''))
     (filter (\<lambda>path. path \<in> set [js ''d'', js ''a'', js ''d''])
        (sort [js ''c'', js ''a'', js ''c'', js ''a'']))
   = [js ''dir1/a'', js ''dir1/a'']"
  by code_simp+

text \<open>
  Claim C1. Whenever \<open>compareDirectories\<close> returns a \<open>DiffResult\<close>, the two calls of
  \<open>collectPaths\<close> returned snapshots, and the three lists of the result are lists of
  root-relative paths with the root joined to each, for which, as sets, \<open>inBoth\<close> is the
  intersection of the snapshots, \<open>onlyInFirst\<close> is the first without the second and
  \<open>onlyInSecond\<close> the second without the first; so \<open>onlyInFirst\<close> with \<open>inBoth\<close> is what was
  collected from \<open>dir1\<close>, and \<open>onlyInSecond\<close> with \<open>inBoth\<close> what was collected from \<open>dir2\<close>.
\<close>

theorem partition_set_semantics:
  assumes "fst (compareDirectories compile fs dir1 dir2 ignorePatterns w) = Inr diff"
  shows "\<exists>regexPatterns snapshot1 w1 snapshot2 w2 first second both.
           mapE (toRegExp compile) ignorePatterns = Inr regexPatterns \<and>
           collectPaths dir1 dir1 [] (fs dir1) regexPatterns w = (Inr snapshot1, w1) \<and>
           collectPaths dir2 dir2 [] (fs dir2) regexPatterns w1 = (Inr snapshot2, w2) \<and>
           onlyInFirst diff = map (join dir1) first \<and>
           onlyInSecond diff = map (join dir2) second \<and>
           inBoth diff = map (join dir1) both \<and>
           set both = set snapshot1 \<inter> set snapshot2 \<and>
           set first = set snapshot1 - set snapshot2 \<and>
           set second = set snapshot2 - set snapshot1 \<and>
           set first \<union> set both = set snapshot1 \<and>
           set second \<union> set both = set snapshot2"
proof -
  from compareDirectories_returns [OF assms]
  obtain regexPatterns snapshot1 w1 snapshot2 w2 where
    runs: "mapE (toRegExp compile) ignorePatterns = Inr regexPatterns"
      "collectPaths dir1 dir1 [] (fs dir1) regexPatterns w = (Inr snapshot1, w1)"
      "collectPaths dir2 dir2 [] (fs dir2) regexPatterns w1 = (Inr snapshot2, w2)"
    and lists: "onlyInFirst diff =
      map (join dir1) (filter (\<lambda>path. path \<notin> set snapshot2) (sort snapshot1))"
      "onlyInSecond diff =
      map (join dir2) (filter (\<lambda>path. path \<notin> set snapshot1) (sort snapshot2))"
      "inBoth diff =
      map (join dir1) (filter (\<lambda>path. path \<in> set snapshot2) (sort snapshot1))"
    by blast
  let ?first = "filter (\<lambda>path. path \<notin> set snapshot2) (sort snapshot1)"
  let ?second = "filter (\<lambda>path. path \<notin> set snapshot1) (sort snapshot2)"
  let ?both = "filter (\<lambda>path. path \<in> set snapshot2) (sort snapshot1)"
  have b: "set ?both = set snapshot1 \<inter> set snapshot2" by auto
  have f: "set ?first = set snapshot1 - set snapshot2" by auto
  have s: "set ?second = set snapshot2 - set snapshot1" by auto
  have u1: "set ?first \<union> set ?both = set snapshot1" unfolding b f by blast
  have u2: "set ?second \<union> set ?both = set snapshot2" unfolding b s by blast
  from runs lists b f s u1 u2 show ?thesis by blast
qed

theorem partition_set_semantics_witness:
  "fst (compareDirectories sampleEngine dottedFs (js ''.'') (js ''../other/'') [] world0)
     = Inr dottedDiff \<and>
   (\<exists>first second both.
      onlyInFirst dottedDiff = map (join (js ''.'')) first \<and>
      onlyInSecond dottedDiff = map (join (js ''../other/'')) second \<and>
      inBoth dottedDiff = map (join (js ''.'')) both \<and>
      set both = set [js ''b/c.txt'', js ''a.txt''] \<inter> set [js ''a.txt'', js ''b/d.txt''] \<and>
      set first = set [js ''b/c.txt'', js ''a.txt''] - set [js ''a.txt'', js ''b/d.txt''] \<and>
      set second = set [js ''a.txt'', js ''b/d.txt''] - set [js ''b/c.txt'', js ''a.txt''] \<and>
      set first \<union> set both = set [js ''b/c.txt'', js ''a.txt''] \<and>
      set second \<union> set both = set [js ''a.txt'', js ''b/d.txt''])"
proof -
  from partition_set_semantics [OF dotted_run]
  obtain regexPatterns snapshot1 w1 snapshot2 w2 first second both where
    pats: "mapE (toRegExp sampleEngine) [] = Inr regexPatterns"
    and run1: "collectPaths (js ''.'') (js ''.'') [] (dottedFs (js ''.'')) regexPatterns world0
      = (Inr snapshot1, w1)"
    and run2: "collectPaths (js ''../other/'') (js ''../other/'') [] (dottedFs (js ''../other/''))
      regexPatterns w1 = (Inr snapshot2, w2)"
    and rest: "onlyInFirst dottedDiff = map (join (js ''.'')) first"
      "onlyInSecond dottedDiff = map (join (js ''../other/'')) second"
      "inBoth dottedDiff = map (join (js ''.'')) both"
      "set both = set snapshot1 \<inter> set snapshot2"
      "set first = set snapshot1 - set snapshot2"
      "set second = set snapshot2 - set snapshot1"
      "set first \<union> set both = set snapshot1"
      "set second \<union> set both = set snapshot2"
    by blast
  from pats have [simp]: "regexPatterns = []" by simp
  from run1 dotted_snapshots(1) have s1: "snapshot1 = [js ''b/c.txt'', js ''a.txt'']"
    and w1: "w1 = snd (collectPaths (js ''.'') (js ''.'') [] (dottedFs (js ''.'')) [] world0)"
    by simp_all
  from run2 dotted_snapshots(2) have s2: "snapshot2 = [js ''a.txt'', js ''b/d.txt'']"
    unfolding w1 by simp
  from rest show ?thesis unfolding s1 s2 using dotted_run by blast
qed

text \<open>
  Claim C3. The three lists of a returned \<open>DiffResult\<close> are built from lists of
  root-relative paths, the filters of the sorted snapshots, and each of these is in
  ascending order, the order of \<open>sort()\<close> on strings.
\<close>

theorem buckets_sorted:
  assumes "fst (compareDirectories compile fs dir1 dir2 ignorePatterns w) = Inr diff"
  shows "\<exists>regexPatterns snapshot1 w1 snapshot2 w2 first second both.
           mapE (toRegExp compile) ignorePatterns = Inr regexPatterns \<and>
           collectPaths dir1 dir1 [] (fs dir1) regexPatterns w = (Inr snapshot1, w1) \<and>
           collectPaths dir2 dir2 [] (fs dir2) regexPatterns w1 = (Inr snapshot2, w2) \<and>
           onlyInFirst diff = map (join dir1) first \<and>
           onlyInSecond diff = map (join dir2) second \<and>
           inBoth diff = map (join dir1) both \<and>
           first = filter (\<lambda>path. path \<notin> set snapshot2) (sort snapshot1) \<and>
           second = filter (\<lambda>path. path \<notin> set snapshot1) (sort snapshot2) \<and>
           both = filter (\<lambda>path. path \<in> set snapshot2) (sort snapshot1) \<and>
           sorted first \<and> sorted second \<and> sorted both"
proof -
  from compareDirectories_returns [OF assms]
  obtain regexPatterns snapshot1 w1 snapshot2 w2 where
    runs: "mapE (toRegExp compile) ignorePatterns = Inr regexPatterns"
      "collectPaths dir1 dir1 [] (fs dir1) regexPatterns w = (Inr snapshot1, w1)"
      "collectPaths dir2 dir2 [] (fs dir2) regexPatterns w1 = (Inr snapshot2, w2)"
    and lists: "onlyInFirst diff =
      map (join dir1) (filter (\<lambda>path. path \<notin> set snapshot2) (sort snapshot1))"
      "onlyInSecond diff =
      map (join dir2) (filter (\<lambda>path. path \<notin> set snapshot1) (sort snapshot2))"
      "inBoth diff =
      map (join dir1) (filter (\<lambda>path. path \<in> set snapshot2) (sort snapshot1))"
    by blast
  have "sorted (filter (\<lambda>path. path \<notin> set snapshot2) (sort snapshot1))"
    "sorted (filter (\<lambda>path. path \<notin> set snapshot1) (sort snapshot2))"
    "sorted (filter (\<lambda>path. path \<in> set snapshot2) (sort snapshot1))"
    by (simp_all add: sorted_wrt_filter)
  with runs lists show ?thesis by blast
qed

theorem buckets_sorted_witness:
  "fst (compareDirectories sampleEngine unicodeFs (js ''dir1'') (js ''dir2'') [] world0)
     = Inr unicodeDiff \<and>
   (\<exists>first second both.
      onlyInFirst unicodeDiff = map (join (js ''dir1'')) first \<and>
      onlyInSecond unicodeDiff = map (join (js ''dir2'')) second \<and>
      inBoth unicodeDiff = map (join (js ''dir1'')) both \<and>
      first = [js ''b/x.txt'', js ''z'', [0xD83D, 0xDE00], [0xFF5E]] \<and>
      second = [js ''b/d.txt'', js ''q'', js ''y''] \<and>
      both = [js ''a.txt'', js ''b/c.txt''] \<and>
      sorted first \<and> sorted second \<and> sorted both)"
proof -
  from buckets_sorted [OF unicode_run]
  obtain regexPatterns snapshot1 w1 snapshot2 w2 first second both where
    pats: "mapE (toRegExp sampleEngine) [] = Inr regexPatterns"
    and run1: "collectPaths (js ''dir1'') (js ''dir1'') [] (unicodeFs (js ''dir1''))
      regexPatterns world0 = (Inr snapshot1, w1)"
    and run2: "collectPaths (js ''dir2'') (js ''dir2'') [] (unicodeFs (js ''dir2''))
      regexPatterns w1 = (Inr snapshot2, w2)"
    and lists: "onlyInFirst unicodeDiff = map (join (js ''dir1'')) first"
      "onlyInSecond unicodeDiff = map (join (js ''dir2'')) second"
      "inBoth unicodeDiff = map (join (js ''dir1'')) both"
    and filters: "first = filter (\<lambda>path. path \<notin> set snapshot2) (sort snapshot1)"
      "second = filter (\<lambda>path. path \<notin> set snapshot1) (sort snapshot2)"
      "both = filter (\<lambda>path. path \<in> set snapshot2) (sort snapshot1)"
    and sorted: "sorted first" "sorted second" "sorted both"
    by blast
  from pats have [simp]: "regexPatterns = []" by simp
  from run1 unicode_snapshots(1)
  have s1: "snapshot1 =
      [js ''z'', [0xFF5E], [0xD83D, 0xDE00], js ''b/x.txt'', js ''b/c.txt'', js ''a.txt'']"
    and w1: "w1 = snd (collectPaths (js ''dir1'') (js ''dir1'') [] (unicodeFs (js ''dir1'')) []
      world0)"
    by simp_all
  from run2 unicode_snapshots(2)
  have s2: "snapshot2 = [js ''y'', js ''b/d.txt'', js ''b/c.txt'', js ''a.txt'', js ''q'']"
    unfolding w1 by simp
  from filters have "first = [js ''b/x.txt'', js ''z'', [0xD83D, 0xDE00], [0xFF5E]]"
    "second = [js ''b/d.txt'', js ''q'', js ''y'']"
    "both = [js ''a.txt'', js ''b/c.txt'']"
    unfolding s1 s2 unicode_buckets by simp_all
  with lists sorted unicode_run show ?thesis by blast
qed

text \<open>
  Claim C10. When the patterns compile and both traversals return, \<open>compareDirectories\<close>
  returns a \<open>DiffResult\<close>; \<open>onlyInFirst\<close> and \<open>inBoth\<close> are built from the two
  complementary filters of the sorted first snapshot and \<open>onlyInSecond\<close> from a filter of
  the sorted second one; the lengths of the first two add up to the length of the first
  snapshot, and every path keeps the number of its occurrences: a path that a snapshot
  holds twice is twice in the list it goes to.
\<close>

theorem partition_keeps_multiplicity:
  assumes "mapE (toRegExp compile) ignorePatterns = Inr regexPatterns"
    and "fst (collectPaths dir1 dir1 [] (fs dir1) regexPatterns w) = Inr snapshot1"
    and "fst (collectPaths dir2 dir2 [] (fs dir2) regexPatterns
               (snd (collectPaths dir1 dir1 [] (fs dir1) regexPatterns w))) = Inr snapshot2"
  shows "\<exists>diff first second both.
           fst (compareDirectories compile fs dir1 dir2 ignorePatterns w) = Inr diff \<and>
           onlyInFirst diff = map (join dir1) first \<and>
           onlyInSecond diff = map (join dir2) second \<and>
           inBoth diff = map (join dir1) both \<and>
           first = filter (\<lambda>path. path \<notin> set snapshot2) (sort snapshot1) \<and>
           both = filter (\<lambda>path. path \<in> set snapshot2) (sort snapshot1) \<and>
           second = filter (\<lambda>path. path \<notin> set snapshot1) (sort snapshot2) \<and>
           length (onlyInFirst diff) + length (inBoth diff) = length snapshot1 \<and>
           mset first + mset both = mset snapshot1 \<and>
           mset first = filter_mset (\<lambda>path. path \<notin> set snapshot2) (mset snapshot1) \<and>
           mset both = filter_mset (\<lambda>path. path \<in> set snapshot2) (mset snapshot1) \<and>
           mset second = filter_mset (\<lambda>path. path \<notin> set snapshot1) (mset snapshot2)"
proof -
  obtain w1 where run1: "collectPaths dir1 dir1 [] (fs dir1) regexPatterns w = (Inr snapshot1, w1)"
    using assms(2) by (cases "collectPaths dir1 dir1 [] (fs dir1) regexPatterns w") auto
  then have w1: "snd (collectPaths dir1 dir1 [] (fs dir1) regexPatterns w) = w1" by simp
  obtain w2 where run2: "collectPaths dir2 dir2 [] (fs dir2) regexPatterns w1 = (Inr snapshot2, w2)"
    using assms(3) unfolding w1
    by (cases "collectPaths dir2 dir2 [] (fs dir2) regexPatterns w1") auto
  let ?first = "filter (\<lambda>path. path \<notin> set snapshot2) (sort snapshot1)"
  let ?second = "filter (\<lambda>path. path \<notin> set snapshot1) (sort snapshot2)"
  let ?both = "filter (\<lambda>path. path \<in> set snapshot2) (sort snapshot1)"
  let ?diff = "\<lparr> onlyInFirst = map (join dir1) ?first, onlyInSecond = map (join dir2) ?second,
    inBoth = map (join dir1) ?both \<rparr>"
  have ret: "fst (compareDirectories compile fs dir1 dir2 ignorePatterns w) = Inr ?diff"
    by (rule compareDirectories_runs [OF assms(1) run1 run2])
  have len: "length (onlyInFirst ?diff) + length (inBoth ?diff) = length snapshot1"
  proof -
    have "length (filter (\<lambda>path. path \<in> set snapshot2) (sort snapshot1))
        + length (filter (\<lambda>path. \<not> path \<in> set snapshot2) (sort snapshot1))
        = length (sort snapshot1)"
      by (rule sum_length_filter_compl)
    then show ?thesis by simp
  qed
  have m: "mset ?first + mset ?both = mset snapshot1"
    "mset ?first = filter_mset (\<lambda>path. path \<notin> set snapshot2) (mset snapshot1)"
    "mset ?both = filter_mset (\<lambda>path. path \<in> set snapshot2) (mset snapshot1)"
    "mset ?second = filter_mset (\<lambda>path. path \<notin> set snapshot1) (mset snapshot2)"
    by (simp_all add: mset_filter)
  have "fst (compareDirectories compile fs dir1 dir2 ignorePatterns w) = Inr ?diff \<and>
      onlyInFirst ?diff = map (join dir1) ?first \<and>
      onlyInSecond ?diff = map (join dir2) ?second \<and>
      inBoth ?diff = map (join dir1) ?both \<and>
      ?first = ?first \<and> ?both = ?both \<and> ?second = ?second \<and>
      length (onlyInFirst ?diff) + length (inBoth ?diff) = length snapshot1 \<and>
      mset ?first + mset ?both = mset snapshot1 \<and>
      mset ?first = filter_mset (\<lambda>path. path \<notin> set snapshot2) (mset snapshot1) \<and>
      mset ?both = filter_mset (\<lambda>path. path \<in> set snapshot2) (mset snapshot1) \<and>
      mset ?second = filter_mset (\<lambda>path. path \<notin> set snapshot1) (mset snapshot2)"
    using ret len m by simp
  then show ?thesis by blast
qed

theorem partition_keeps_multiplicity_witness:
  "mapE (toRegExp sampleEngine) [] = Inr [] \<and>
   fst (collectPaths (js ''dir1'') (js ''dir1'') [] (repeatFs (js ''dir1'')) [] world0)
     = Inr [js ''c'', js ''a'', js ''c'', js ''a''] \<and>
   fst (collectPaths (js ''dir2'') (js ''dir2'') [] (repeatFs (js ''dir2'')) []
          (snd (collectPaths (js ''dir1'') (js ''dir1'') [] (repeatFs (js ''dir1'')) [] world0)))
     = Inr [js ''d'', js ''a'', js ''d''] \<and>
   (\<exists>diff.
      fst (compareDirectories sampleEngine repeatFs (js ''dir1'') (js ''dir2'') [] world0)
        = Inr diff \<and>
      onlyInFirst diff = [js ''dir1/c'', js ''dir1/c''] \<and>
      onlyInSecond diff = [js ''dir2/d'', js ''dir2/d''] \<and>
      inBoth diff = [js ''dir1/a'', js ''dir1/a''] \<and>
      length (onlyInFirst diff) + length (inBoth diff)
        = length [js ''c'', js ''a'', js ''c'', js ''a''])"
proof -
  have pats: "mapE (toRegExp sampleEngine) [] = Inr []" by simp
  from partition_keeps_multiplicity [OF pats repeat_snapshots]
  obtain diff first second both where
    ret: "fst (compareDirectories sampleEngine repeatFs (js ''dir1'') (js ''dir2'') [] world0)
      = Inr diff"
    and lists: "onlyInFirst diff = map (join (js ''dir1'')) first"
      "onlyInSecond diff = map (join (js ''dir2'')) second"
      "inBoth diff = map (join (js ''dir1'')) both"
    and filters: "first = filter (\<lambda>path. path \<notin> set [js ''d'', js ''a'', js ''d''])
        (sort [js ''c'', js ''a'', js ''c'', js ''a''])"
      "both = filter (\<lambda>path. path \<in> set [js ''d'', js ''a'', js ''d''])
        (sort [js ''c'', js ''a'', js ''c'', js ''a''])"
      "second = filter (\<lambda>path. path \<notin> set [js ''c'', js ''a'', js ''c'', js ''a''])
        (sort [js ''d'', js ''a'', js ''d''])"
    and len: "length (onlyInFirst diff) + length (inBoth diff)
      = length [js ''c'', js ''a'', js ''c'', js ''a'']"
    by blast
  from lists have "onlyInFirst diff = [js ''dir1/c'', js ''dir1/c'']"
    "onlyInSecond diff = [js ''dir2/d'', js ''dir2/d'']"
    "inBoth diff = [js ''dir1/a'', js ''dir1/a'']"
    unfolding filters repeat_buckets by simp_all
  with ret len pats repeat_snapshots show ?thesis by blast
qed

section \<open>Invalid patterns\<close>

lemma mapE_toRegExp_Inl:
  "mapE (toRegExp compile) pats = Inl e \<Longrightarrow>
     \<exists>bad. e = InvalidPatternError bad \<and> compile bad = None \<and> PString bad \<in> set pats"
proof (induction pats)
  case Nil
  then show ?case by simp
next
  case (Cons p pats)
  then show ?case
    by (cases p) (auto simp: newRegExp_def split: sum.splits option.splits)
qed

lemma mapE_toRegExp_invalid:
  "PString pat \<in> set pats \<Longrightarrow> compile pat = None \<Longrightarrow> \<exists>e. mapE (toRegExp compile) pats = Inl e"
  by (induction pats) (auto simp: newRegExp_def split: sum.splits)

lemma mapE_newRegExp_Inl:
  "mapE (newRegExp compile) pats = Inl e \<Longrightarrow>
     \<exists>bad. e = InvalidPatternError bad \<and> compile bad = None \<and> bad \<in> set pats"
  by (induction pats) (auto simp: newRegExp_def split: sum.splits option.splits)

lemma mapE_newRegExp_invalid:
  "pat \<in> set pats \<Longrightarrow> compile pat = None \<Longrightarrow> \<exists>e. mapE (newRegExp compile) pats = Inl e"
  by (induction pats) (auto simp: newRegExp_def split: sum.splits)

text \<open>
  Claim C6. When one of the ignore patterns is a string that is not a regular expression,
  \<open>compareDirectories\<close> ends with the error of \<open>new RegExp\<close> for an invalid pattern of the
  list and returns no \<open>DiffResult\<close>; the world is the one it started in, so no root has
  been listed and no entry examined. \<open>patternsToRegExp\<close> fails in the same way.
\<close>

theorem invalid_pattern_aborts:
  assumes "compile pat = None"
  shows "(PString pat \<in> set ignorePatterns \<longrightarrow>
            (\<exists>bad. PString bad \<in> set ignorePatterns \<and> compile bad = None \<and>
               compareDirectories compile fs dir1 dir2 ignorePatterns w
                 = (Inl (InvalidPatternError bad), w))) \<and>
         (pat \<in> set patterns \<longrightarrow>
            (\<exists>bad. bad \<in> set patterns \<and> compile bad = None \<and>
               patternsToRegExp compile patterns = Inl (InvalidPatternError bad)))"
proof (intro conjI impI)
  assume "PString pat \<in> set ignorePatterns"
  with assms obtain e where e: "mapE (toRegExp compile) ignorePatterns = Inl e"
    using mapE_toRegExp_invalid by blast
  from mapE_toRegExp_Inl [OF e] obtain bad where
    "e = InvalidPatternError bad" "compile bad = None" "PString bad \<in> set ignorePatterns"
    by blast
  with e show "\<exists>bad. PString bad \<in> set ignorePatterns \<and> compile bad = None \<and>
      compareDirectories compile fs dir1 dir2 ignorePatterns w = (Inl (InvalidPatternError bad), w)"
    by (auto simp: compareDirectories_def)
next
  assume "pat \<in> set patterns"
  with assms obtain e where e: "mapE (newRegExp compile) patterns = Inl e"
    using mapE_newRegExp_invalid by blast
  from mapE_newRegExp_Inl [OF e] obtain bad where
    "e = InvalidPatternError bad" "compile bad = None" "bad \<in> set patterns"
    by blast
  with e show "\<exists>bad. bad \<in> set patterns \<and> compile bad = None \<and>
      patternsToRegExp compile patterns = Inl (InvalidPatternError bad)"
    by (auto simp: patternsToRegExp_def)
qed

theorem invalid_pattern_aborts_witness:
  "sampleEngine (js ''('') = None \<and>
   compareDirectories sampleEngine sampleFs (js ''dir1'') (js ''dir2'')
       [PString (js ''^b/''), PString (js ''('')] world0
     = (Inl (InvalidPatternError (js ''('')), world0) \<and>
   patternsToRegExp sampleEngine [js ''^b/'', js ''(''] = Inl (InvalidPatternError (js ''(''))"
proof -
  have bad: "sampleEngine (js ''('') = None" by (simp add: sampleEngine_def js_def)
  have ok: "sampleEngine (js ''^b/'') \<noteq> None" by (simp add: sampleEngine_def)
  from invalid_pattern_aborts [where compile = sampleEngine and pat = "js ''(''"
      and ignorePatterns = "[PString (js ''^b/''), PString (js ''('')]" and fs = sampleFs
      and ?dir1.0 = "js ''dir1''" and ?dir2.0 = "js ''dir2''" and w = world0
      and patterns = "[js ''^b/'', js ''('']"] bad ok
  show ?thesis by auto
qed

section \<open>The difference report\<close>

lemma decimal_reads_back: "readDecimal (decimal n) = n"
proof (induction n rule: decimal.induct)
  case (1 n)
  have d: "unat (digit k) - 48 = k" if "k < 10" for k :: nat
  proof -
    have "unat (of_nat (48 + k) :: 16 word) = (48 + k) mod 2 ^ 16"
      by (simp only: unat_of_nat len_of_numeral_defs) simp
    with that show ?thesis by (simp add: digit_def)
  qed
  show ?case
  proof (cases "n < 10")
    case True
    then show ?thesis by (simp add: decimal.simps [of n] readDecimal_def d)
  next
    case False
    with 1 have "readDecimal (decimal (n div 10)) = n div 10" by simp
    with False show ?thesis
      by (simp add: decimal.simps [of n] readDecimal_def d)
  qed
qed

text \<open>
  Claim C8, as the code has it. When one of \<open>onlyInFirst\<close> and \<open>onlyInSecond\<close> is not
  empty, the last line of the report is the count line, with the length of \<open>inBoth\<close> and
  the sum of the lengths of the other two lists. When both are empty the report is the
  header and the message that the directories are identical, and the function returns
  before the count line.
\<close>

theorem count_line_after_differences:
  "(onlyInFirst diff \<noteq> [] \<or> onlyInSecond diff \<noteq> [] \<longrightarrow>
      last (printDifferences resolve dir1 dir2 diff) = [0x0A] @ countLine diff) \<and>
   (onlyInFirst diff = [] \<and> onlyInSecond diff = [] \<longrightarrow>
      printDifferences resolve dir1 dir2 diff =
        [js ''Directory Structure Comparison:'', js ''==============================='',
         [0x2705] @ js '' Directories are identical''])"
  by (simp add: printDifferences_def)

theorem count_line_after_differences_witness:
  "onlyInFirst sampleDiff \<noteq> [] \<and>
   last (printDifferences id (js ''dir1'') (js ''dir2'') sampleDiff)
     = [0x0A] @ js ''Found 1 identical paths, 2 differences'' \<and>
   onlyInFirst identicalDiff = [] \<and> onlyInSecond identicalDiff = [] \<and>
   printDifferences id (js ''dir1'') (js ''dir2'') identicalDiff =
     [js ''Directory Structure Comparison:'', js ''==============================='',
      [0x2705] @ js '' Directories are identical'']"
proof -
  have a: "onlyInFirst sampleDiff \<noteq> []" by (simp add: sampleDiff_def js_def)
  have b: "onlyInFirst identicalDiff = [] \<and> onlyInSecond identicalDiff = []"
    by (simp add: identicalDiff_def)
  have c: "countLine sampleDiff = js ''Found 1 identical paths, 2 differences''"
    by code_simp
  from count_line_after_differences [of sampleDiff id "js ''dir1''" "js ''dir2''"]
    count_line_after_differences [of identicalDiff id "js ''dir1''" "js ''dir2''"] a b c
  show ?thesis by simp
qed

text \<open>
  Claim C8 as stated fails: with both lists empty the report ends with the message, not
  with the count line.
\<close>

theorem count_line_missing_counterexample:
  "printDifferences id (js ''dir1'') (js ''dir2'') identicalDiff =
     [js ''Directory Structure Comparison:'', js ''==============================='',
      [0x2705] @ js '' Directories are identical''] \<and>
   countLine identicalDiff = js ''Found 1 identical paths, 0 differences'' \<and>
   last (printDifferences id (js ''dir1'') (js ''dir2'') identicalDiff)
     \<noteq> [0x0A] @ countLine identicalDiff \<and>
   last (printDifferences id (js ''dir1'') (js ''dir2'') identicalDiff) \<noteq> countLine identicalDiff"
  by code_simp

section \<open>The configuration\<close>

lemma isArray_iff: "isArray v \<longleftrightarrow> (\<exists>xs. v = Some (JArray xs))"
  by (cases v rule: isArray.cases) auto

text \<open>
  Claim C9. When the configuration file is absent, cannot be read, is not JSON, or holds a
  value whose \<open>ignorePaths\<close> is not an array, \<open>loadConfig\<close> returns the empty
  configuration, whose \<open>ignorePaths\<close> is the empty array; every exception of the \<open>try\<close>
  block is caught. When the file holds a value with an \<open>ignorePaths\<close> array, that value is
  returned as it was parsed.
\<close>

theorem loadConfig_falls_back:
  "((file = Absent \<or> file = Unreadable \<or>
     (\<exists>text. file = Content text \<and> parse text = None) \<or>
     (\<exists>text v. file = Content text \<and> parse text = Some v \<and>
        (\<forall>xs. ignorePathsOf v \<noteq> Inr (Some (JArray xs)))))
      \<longrightarrow> fst (loadConfig parse file) = emptyConfig) \<and>
   ignorePathsOf emptyConfig = Inr (Some (JArray [])) \<and>
   (\<forall>text v xs. file = Content text \<and> parse text = Some v \<and>
        ignorePathsOf v = Inr (Some (JArray xs))
      \<longrightarrow> fst (loadConfig parse file) = v \<and>
          ignorePathsOf (fst (loadConfig parse file)) = Inr (Some (JArray xs)))"
  by (auto simp: loadConfig_def loadConfigTry_def emptyConfig_def isArray_iff
      split: sum.splits option.splits)

theorem loadConfig_falls_back_witness:
  "fst (loadConfig sampleParse Absent) = emptyConfig \<and>
   fst (loadConfig sampleParse Unreadable) = emptyConfig \<and>
   fst (loadConfig sampleParse (Content (js ''{oops''))) = emptyConfig \<and>
   fst (loadConfig sampleParse (Content (js ''null''))) = emptyConfig \<and>
   fst (loadConfig sampleParse (Content (js ''{}''))) = emptyConfig \<and>
   fst (loadConfig sampleParse (Content sampleConfigText))
     = JObject [(js ''ignorePaths'', JArray [JString (js ''^b/'')])] \<and>
   ignorePathsOf (fst (loadConfig sampleParse (Content sampleConfigText)))
     = Inr (Some (JArray [JString (js ''^b/'')]))"
proof -
  have t: "sampleConfigText \<noteq> js ''{oops''" "sampleConfigText \<noteq> js ''null''"
    "sampleConfigText \<noteq> js ''{}''"
    by (simp_all add: sampleConfigText_def js_def)
  have p1: "sampleParse (js ''{oops'') = None"
    and p2: "sampleParse (js ''null'') = Some JNull"
    and p3: "sampleParse (js ''{}'') = Some (JObject [])"
    and p4: "sampleParse sampleConfigText
      = Some (JObject [(js ''ignorePaths'', JArray [JString (js ''^b/'')])])"
    using t by (simp_all add: sampleParse_def js_def)
  from loadConfig_falls_back [of Absent sampleParse]
  have 1: "fst (loadConfig sampleParse Absent) = emptyConfig" by simp
  from loadConfig_falls_back [of Unreadable sampleParse]
  have 2: "fst (loadConfig sampleParse Unreadable) = emptyConfig" by simp
  from loadConfig_falls_back [of "Content (js ''{oops'')" sampleParse] p1
  have 3: "fst (loadConfig sampleParse (Content (js ''{oops''))) = emptyConfig" by simp
  from loadConfig_falls_back [of "Content (js ''null'')" sampleParse] p2
  have 4: "fst (loadConfig sampleParse (Content (js ''null''))) = emptyConfig" by simp
  from loadConfig_falls_back [of "Content (js ''{}'')" sampleParse] p3
  have 5: "fst (loadConfig sampleParse (Content (js ''{}''))) = emptyConfig" by simp
  from loadConfig_falls_back [of "Content sampleConfigText" sampleParse] p4
  have 6: "fst (loadConfig sampleParse (Content sampleConfigText))
     = JObject [(js ''ignorePaths'', JArray [JString (js ''^b/'')])]"
    and 7: "ignorePathsOf (fst (loadConfig sampleParse (Content sampleConfigText)))
     = Inr (Some (JArray [JString (js ''^b/'')]))" by simp_all
  from 1 2 3 4 5 6 7 show ?thesis by blast
qed

section \<open>The traversal with stateless patterns\<close>

lemma test_plain: "plain p \<Longrightarrow> test p s w = (matches p s, w)"
  by (cases p) auto

lemma some_test_plain:
  "list_all plain ps \<Longrightarrow> some_test ps s w = (ignored ps s, w)"
  by (induction ps) (auto simp: ignored_def test_plain split: bool.splits)

lemma collect_plain:
  assumes "list_all plain ps"
  shows "fst (collectPaths b c ns n ps w) = visibleFiles c (ignored ps) ns n"
    and "fst (collectLoop b c ns es ps acc w) =
           (case visibleEntries c (ignored ps) ns es of
              Inl e \<Rightarrow> Inl e
            | Inr rest \<Rightarrow> Inr (acc @ rest))"
  using assms
proof (induction b c ns n ps w and b c ns es ps acc w rule: collectPaths_collectLoop.induct)
  case (1 baseDir currentDir names n ignorePatterns w)
  show ?case
  proof (cases n)
    case (Dir entries)
    with 1 show ?thesis by (simp add: collectPaths.simps split: sum.splits)
  qed (simp_all add: collectPaths.simps)
next
  case (2 baseDir currentDir names ignorePatterns paths w)
  show ?case by simp
next
  case (3 baseDir currentDir names entry n entries ignorePatterns paths w)
  let ?rel = "pathString (names @ [entry])"
  let ?full = "join currentDir entry"
  let ?w2 = "logcall (Stat ?full True) w"
  note pl = \<open>list_all plain ignorePatterns\<close>
  have st: "some_test ignorePatterns ?rel w = (ignored ignorePatterns ?rel, w)"
    using pl by (simp add: some_test_plain)
  show ?case
  proof (cases "ignored ignorePatterns ?rel")
    case True
    with 3 st show ?thesis by simp
  next
    case False
    have ss: "(False, w) = some_test ignorePatterns ?rel w"
      using st False by simp
    show ?thesis
    proof (cases "n = Dangling")
      case True
      with st False show ?thesis by (simp add: Let_def)
    next
      case live: False
      show ?thesis
      proof (cases "n = File")
        case True
        have stat: "(Inr False, ?w2) = statSync ?full n w"
          using True by simp
        from "3.IH"(4) [OF refl refl ss _ stat refl _ pl]
        have "fst (collectLoop baseDir currentDir names entries ignorePatterns (paths @ [?rel]) ?w2) =
            (case visibleEntries currentDir (ignored ignorePatterns) names entries of
               Inl e \<Rightarrow> Inl e | Inr rest \<Rightarrow> Inr ((paths @ [?rel]) @ rest))"
          by simp
        with st False True show ?thesis
          by (simp add: Let_def split: sum.splits)
      next
        case dir: False
        have stat: "(Inr True, ?w2) = statSync ?full n w"
          using live dir by (cases n) simp_all
        obtain r w3 where sub:
          "collectPaths baseDir ?full (names @ [entry]) n ignorePatterns ?w2 = (r, w3)"
          by (cases "collectPaths baseDir ?full (names @ [entry]) n ignorePatterns ?w2")
        from "3.IH"(2) [OF refl refl ss _ stat refl _ pl] sub
        have r: "visibleFiles ?full (ignored ignorePatterns) (names @ [entry]) n = r"
          by simp
        have unfold: "collectLoop baseDir currentDir names ((entry, n) # entries) ignorePatterns paths w =
            (case r of
               Inl e \<Rightarrow> (Inl e, w3)
             | Inr sub \<Rightarrow> collectLoop baseDir currentDir names entries ignorePatterns (paths @ sub) w3)"
          using st False stat [symmetric] sub by (simp add: Let_def)
        have pure: "visibleEntries currentDir (ignored ignorePatterns) names ((entry, n) # entries) =
            (case r of
               Inl e \<Rightarrow> Inl e
             | Inr sub \<Rightarrow>
                 (case visibleEntries currentDir (ignored ignorePatterns) names entries of
                    Inl e \<Rightarrow> Inl e
                  | Inr rest \<Rightarrow> Inr (sub @ rest)))"
          using False live dir r by simp
        show ?thesis
        proof (cases r)
          case (Inl e)
          show ?thesis unfolding unfold pure Inl by simp
        next
          case (Inr found)
          from "3.IH"(3) [OF refl refl ss _ stat refl _ sub [symmetric] Inr pl]
          have "fst (collectLoop baseDir currentDir names entries ignorePatterns (paths @ found) w3) =
              (case visibleEntries currentDir (ignored ignorePatterns) names entries of
                 Inl e \<Rightarrow> Inl e | Inr rest \<Rightarrow> Inr ((paths @ found) @ rest))"
            by simp
          then show ?thesis unfolding unfold pure Inr
            by (simp split: sum.splits)
        qed
      qed
    qed
  qed
qed

lemma mapE_toRegExp_plain:
  "list_all stateless pats \<Longrightarrow> mapE (toRegExp compile) pats = Inr res \<Longrightarrow> list_all plain res"
proof (induction pats arbitrary: res)
  case Nil
  then show ?case by simp
next
  case (Cons p pats)
  then show ?case
    by (cases p) (auto simp: newRegExp_def split: sum.splits option.splits)
qed

lemma ignored_patternMatches:
  "mapE (toRegExp compile) pats = Inr res \<Longrightarrow>
     ignored res s = (\<exists>p \<in> set pats. patternMatches compile p s)"
proof (induction pats arbitrary: res)
  case Nil
  then show ?case by (simp add: ignored_def)
next
  case (Cons p pats)
  then show ?case
    by (cases p) (auto simp: ignored_def newRegExp_def split: sum.splits option.splits)
qed

lemma visible_visibleFrom: "visible ign names = visibleFrom ign [] names"
  by (simp add: visible_def visibleFrom_def)

lemma visibleFrom_Nil: "visibleFrom ign dir []"
  by (simp add: visibleFrom_def)

lemma ball_from_one:
  "(\<forall>k \<in> {1..Suc n}. P k) \<longleftrightarrow> P (Suc 0) \<and> (\<forall>k \<in> {1..n}. P (Suc k))"
proof (intro iffI conjI ballI)
  fix k
  assume all: "P (Suc 0) \<and> (\<forall>k \<in> {1..n}. P (Suc k))" and k: "k \<in> {1..Suc n}"
  then obtain j where j: "k = Suc j" by (cases k) auto
  show "P k"
  proof (cases j)
    case 0
    with all j show ?thesis by simp
  next
    case (Suc i)
    with k j have "j \<in> {1..n}" by simp
    with all j show ?thesis by blast
  qed
qed auto

lemma visibleFrom_Cons:
  "visibleFrom ign dir (m # ms) =
     (\<not> ign (pathString (dir @ [m])) \<and> visibleFrom ign (dir @ [m]) ms)"
  unfolding visibleFrom_def by (simp add: ball_from_one del: One_nat_def)

lemma fileAt_Nil: "fileAt n [] = (n = File)"
  by (auto simp: fileAt_def)

lemma fileAt_Cons:
  "fileAt n (m # ms) = (\<exists>entries c. n = Dir entries \<and> (m, c) \<in> set entries \<and> fileAt c ms)"
  by (cases n) (auto simp: fileAt_def split: if_splits)

lemma unreadableAt_Nil: "unreadableAt n [] = (n = LockedDir \<or> n = Dangling)"
  by (auto simp: unreadableAt_def)

lemma unreadableAt_Cons:
  "unreadableAt n (m # ms) =
     (\<exists>entries c. n = Dir entries \<and> (m, c) \<in> set entries \<and> unreadableAt c ms)"
  by (cases n) (auto simp: unreadableAt_def split: if_splits)


lemma visibleFiles_mem:
  "visibleFiles b ign ns n = Inr ps \<Longrightarrow>
     p \<in> set ps \<longleftrightarrow>
       (\<exists>ms. fileAt n ms \<and> visibleFrom ign ns ms \<and> p = pathString (ns @ ms))"
  and visibleEntries_mem:
  "visibleEntries b ign ns es = Inr ps \<Longrightarrow>
     p \<in> set ps \<longleftrightarrow>
       (\<exists>m c ms. (m, c) \<in> set es \<and> fileAt c ms \<and> visibleFrom ign ns (m # ms) \<and>
          p = pathString (ns @ m # ms))"
proof (induction b ign ns n and b ign ns es arbitrary: ps and ps
    rule: visibleFiles_visibleEntries.induct)
  case (1 currentDir ign names entries)
  then have "p \<in> set ps \<longleftrightarrow>
       (\<exists>m c ms. (m, c) \<in> set entries \<and> fileAt c ms \<and> visibleFrom ign names (m # ms) \<and>
          p = pathString (names @ m # ms))"
    by simp
  also have "\<dots> \<longleftrightarrow> (\<exists>ms. fileAt (Dir entries) ms \<and> visibleFrom ign names ms \<and>
      p = pathString (names @ ms))"
  proof
    assume "\<exists>m c ms. (m, c) \<in> set entries \<and> fileAt c ms \<and> visibleFrom ign names (m # ms) \<and>
          p = pathString (names @ m # ms)"
    then obtain m c ms where "(m, c) \<in> set entries" "fileAt c ms"
      "visibleFrom ign names (m # ms)" "p = pathString (names @ m # ms)" by blast
    then have "fileAt (Dir entries) (m # ms) \<and> visibleFrom ign names (m # ms) \<and>
      p = pathString (names @ m # ms)"
      by (auto simp: fileAt_Cons)
    then show "\<exists>ms. fileAt (Dir entries) ms \<and> visibleFrom ign names ms \<and>
      p = pathString (names @ ms)" by blast
  next
    assume "\<exists>ms. fileAt (Dir entries) ms \<and> visibleFrom ign names ms \<and>
      p = pathString (names @ ms)"
    then obtain ms where ms: "fileAt (Dir entries) ms" "visibleFrom ign names ms"
      "p = pathString (names @ ms)" by blast
    then obtain m ms' where "ms = m # ms'"
      by (cases ms) (auto simp: fileAt_Nil)
    with ms show "\<exists>m c ms. (m, c) \<in> set entries \<and> fileAt c ms \<and>
        visibleFrom ign names (m # ms) \<and> p = pathString (names @ m # ms)"
      by (auto simp: fileAt_Cons)
  qed
  finally show ?case .
next
  case (2 currentDir ign names)
  then show ?case by simp
next
  case (3 currentDir ign names)
  then show ?case by simp
next
  case (4 currentDir ign names)
  then show ?case by simp
next
  case (5 currentDir ign names)
  then show ?case by simp
next
  case (6 currentDir ign names entry n entries)
  let ?rel = "pathString (names @ [entry])"
  let ?here = "\<lambda>p. \<exists>ms. fileAt n ms \<and> visibleFrom ign names (entry # ms) \<and>
      p = pathString (names @ entry # ms)"
  let ?later = "\<lambda>p. \<exists>m c ms. (m, c) \<in> set entries \<and> fileAt c ms \<and>
      visibleFrom ign names (m # ms) \<and> p = pathString (names @ m # ms)"
  have goal: "(\<exists>m c ms. (m, c) \<in> set ((entry, n) # entries) \<and> fileAt c ms \<and>
      visibleFrom ign names (m # ms) \<and> p = pathString (names @ m # ms)) \<longleftrightarrow> ?here p \<or> ?later p"
    by auto
  show ?case
  proof (cases "ign ?rel")
    case True
    then have "\<not> ?here p" by (simp add: visibleFrom_Cons)
    moreover from True 6 have "p \<in> set ps \<longleftrightarrow> ?later p" by simp
    ultimately show ?thesis unfolding goal by blast
  next
    case False
    from 6 have live: "n \<noteq> Dangling"
      using False by auto
    show ?thesis
    proof (cases "n = File")
      case True
      from 6(5) False live True obtain rest where
        rest: "visibleEntries currentDir ign names entries = Inr rest" and ps: "ps = ?rel # rest"
        by (auto split: sum.splits)
      from "6.IH"(2) [OF False live True rest] have "p \<in> set rest \<longleftrightarrow> ?later p" .
      moreover have "?here p \<longleftrightarrow> p = ?rel"
      proof
        assume "?here p"
        then obtain ms where ms: "fileAt n ms" "p = pathString (names @ entry # ms)" by blast
        with True have "ms = []" by (cases ms) (auto simp: fileAt_Cons)
        with ms show "p = ?rel" by simp
      next
        assume "p = ?rel"
        with True False have "fileAt n [] \<and> visibleFrom ign names (entry # []) \<and>
            p = pathString (names @ entry # [])"
          by (simp add: fileAt_Nil visibleFrom_Cons visibleFrom_Nil)
        then show "?here p" by blast
      qed
      ultimately show ?thesis unfolding goal ps by auto
    next
      case dir: False
      from 6(5) False live dir obtain sub rest where
        sub: "visibleFiles (join currentDir entry) ign (names @ [entry]) n = Inr sub"
        and rest: "visibleEntries currentDir ign names entries = Inr rest"
        and ps: "ps = sub @ rest"
        by (auto split: sum.splits)
      from "6.IH"(3) [OF False live dir sub]
      have "p \<in> set sub \<longleftrightarrow>
          (\<exists>ms. fileAt n ms \<and> visibleFrom ign (names @ [entry]) ms \<and>
             p = pathString ((names @ [entry]) @ ms))" .
      then have "p \<in> set sub \<longleftrightarrow> ?here p"
        using False by (simp add: visibleFrom_Cons)
      moreover from "6.IH"(4) [OF False live dir sub rest]
      have "p \<in> set rest \<longleftrightarrow> ?later p" .
      ultimately show ?thesis unfolding goal ps by auto
    qed
  qed
qed


lemma nodesAt_wellNamed:
  "wellNamed n \<Longrightarrow> c \<in> set (nodesAt n ms) \<Longrightarrow> \<forall>m \<in> set ms. slash \<notin> set m"
proof (induction ms arbitrary: n)
  case Nil
  then show ?case by simp
next
  case (Cons m ms)
  then show ?case
    by (cases n) (fastforce split: if_splits)+
qed

lemma separator_is_boundary:
  assumes "\<forall>m \<in> set ms. slash \<notin> set m"
    and "pathString ms = q @ slash # rest"
  shows "\<exists>k. 1 \<le> k \<and> k < length ms \<and> pathString (take k ms) = q"
  using assms
proof (induction ms arbitrary: q rule: pathString.induct)
  case 1
  then show ?case by simp
next
  case (2 x)
  then show ?case by auto
next
  case (3 x y ys)
  from 3(3) have eq: "x @ slash # pathString (y # ys) = q @ slash # rest" by simp
  from 3(2) have x: "slash \<notin> set x" by simp
  from eq obtain us where
    "(x = q @ us \<and> us @ slash # pathString (y # ys) = slash # rest) \<or>
     (x @ us = q \<and> slash # pathString (y # ys) = us @ slash # rest)"
    unfolding append_eq_append_conv2 by blast
  then consider "q = x" | us where "q = x @ slash # us" "pathString (y # ys) = us @ slash # rest"
    using x by (cases us) auto
  then show ?case
  proof cases
    case 1
    then have "pathString (take 1 (x # y # ys)) = q" by simp
    then show ?thesis by (intro exI [of _ 1]) simp
  next
    case 2
    from 3(2) have "\<forall>m \<in> set (y # ys). slash \<notin> set m" by simp
    from "3.IH" [OF this, of us] 2(2)
    obtain k where k: "1 \<le> k" "k < length (y # ys)" "pathString (take k (y # ys)) = us"
      by auto
    then obtain z zs where z: "take k (y # ys) = z # zs"
      by (cases k) auto
    have "pathString (take (Suc k) (x # y # ys)) = q"
      using k z 2(1) by simp
    with k show ?thesis by (intro exI [of _ "Suc k"]) simp
  qed
qed

lemma pathBelow_Nil: "pathBelow c [] = c"
  by (simp add: pathBelow_def)

lemma pathBelow_Cons: "pathBelow c (m # ms) = pathBelow (join c m) ms"
  by (simp add: pathBelow_def)

lemma nodesAt_Dir_Cons:
  "(m, child) \<in> set entries \<Longrightarrow> nodesAt child ms \<noteq> [] \<Longrightarrow> nodesAt (Dir entries) (m # ms) \<noteq> []"
  by (induction entries) auto

lemma test_calls: "fscalls (snd (test p s w)) = fscalls w"
  by (cases p) (auto split: option.splits)

lemma some_test_calls: "some_test ps s w = (b, w') \<Longrightarrow> fscalls w' = fscalls w"
proof (induction ps arbitrary: w)
  case Nil
  then show ?case by simp
next
  case (Cons p ps)
  obtain b1 w1 where t: "test p s w = (b1, w1)" by (cases "test p s w")
  with test_calls [of p s w] have "fscalls w1 = fscalls w" by simp
  with Cons t show ?case by (cases b1) auto
qed

lemma collect_calls_visible:
  assumes pl: "list_all plain ps"
  shows "collectPaths b c ns n ps w = (r, w') \<Longrightarrow>
     \<exists>calls. fscalls w' = fscalls w @ calls \<and>
       (\<forall>call \<in> set calls. \<exists>ms. pathOf call = pathBelow c ms \<and>
          visibleFrom (ignored ps) ns ms \<and> nodesAt n ms \<noteq> [])"
    and "collectLoop b c ns es ps acc w = (r, w') \<Longrightarrow>
     \<exists>calls. fscalls w' = fscalls w @ calls \<and>
       (\<forall>call \<in> set calls. \<exists>m child ms. (m, child) \<in> set es \<and>
          pathOf call = pathBelow c (m # ms) \<and>
          visibleFrom (ignored ps) ns (m # ms) \<and> nodesAt child ms \<noteq> [])"
  using pl
proof (induction b c ns n ps w and b c ns es ps acc w arbitrary: r w' and r w'
    rule: collectPaths_collectLoop.induct)
  case (1 baseDir currentDir names n ignorePatterns w)
  let ?ign = "ignored ignorePatterns"
  let ?good = "\<lambda>call. \<exists>ms. pathOf call = pathBelow currentDir ms \<and>
          visibleFrom ?ign names ms \<and> nodesAt n ms \<noteq> []"
  have here: "?good (Readdir currentDir ok)" for ok
  proof -
    have "pathOf (Readdir currentDir ok) = pathBelow currentDir [] \<and>
          visibleFrom ?ign names [] \<and> nodesAt n [] \<noteq> []"
      by (simp add: pathBelow_Nil visibleFrom_Nil)
    then show ?thesis by blast
  qed
  show ?case
  proof (cases "\<exists>entries. n = Dir entries")
    case True
    then obtain entries where n: "n = Dir entries" by blast
    let ?w1 = "logcall (Readdir currentDir True) w"
    have rd: "(Inr entries, ?w1) = readdirSync currentDir n w" using n by simp
    from 1(2) n
    have "collectLoop baseDir currentDir names entries ignorePatterns [] ?w1 = (r, w')"
      by (simp add: collectPaths.simps)
    from "1.IH" [OF rd refl this 1(3)]
    obtain calls where calls: "fscalls w' = fscalls ?w1 @ calls"
      and below: "\<forall>call \<in> set calls. \<exists>m child ms. (m, child) \<in> set entries \<and>
          pathOf call = pathBelow currentDir (m # ms) \<and>
          visibleFrom ?ign names (m # ms) \<and> nodesAt child ms \<noteq> []"
      by blast
    have "\<forall>call \<in> set calls. ?good call"
    proof
      fix call
      assume "call \<in> set calls"
      with below obtain m child ms where "(m, child) \<in> set entries"
        "pathOf call = pathBelow currentDir (m # ms)"
        "visibleFrom ?ign names (m # ms)" "nodesAt child ms \<noteq> []"
        by blast
      then have "pathOf call = pathBelow currentDir (m # ms) \<and>
          visibleFrom ?ign names (m # ms) \<and> nodesAt n (m # ms) \<noteq> []"
        unfolding n using nodesAt_Dir_Cons by blast
      then show "?good call" by blast
    qed
    with here [of True] have "\<forall>call \<in> set (Readdir currentDir True # calls). ?good call"
      by simp
    moreover from calls have "fscalls w' = fscalls w @ (Readdir currentDir True # calls)"
      by (simp add: logcall_def)
    ultimately show ?thesis by blast
  next
    case False
    then have "readdirSync currentDir n w
        = (Inl (FilesystemError currentDir), logcall (Readdir currentDir False) w)"
      by (cases n) auto
    with 1(2) have "w' = logcall (Readdir currentDir False) w"
      by (auto simp: collectPaths.simps)
    then have "fscalls w' = fscalls w @ [Readdir currentDir False]"
      by (simp add: logcall_def)
    moreover from here [of False] have "\<forall>call \<in> set [Readdir currentDir False]. ?good call"
      by simp
    ultimately show ?thesis by blast
  qed
next
  case (2 baseDir currentDir names ignorePatterns paths w)
  then have "fscalls w' = fscalls w @ []" by auto
  then show ?case by force
next
  case (3 baseDir currentDir names entry n entries ignorePatterns paths w)
  let ?ign = "ignored ignorePatterns"
  let ?rel = "pathString (names @ [entry])"
  let ?full = "join currentDir entry"
  let ?good = "\<lambda>es call. \<exists>m child ms. (m, child) \<in> set es \<and>
          pathOf call = pathBelow currentDir (m # ms) \<and>
          visibleFrom ?ign names (m # ms) \<and> nodesAt child ms \<noteq> []"
  note pl = \<open>list_all plain ignorePatterns\<close>
  have st: "some_test ignorePatterns ?rel w = (?ign ?rel, w)"
    using pl by (simp add: some_test_plain)
  have later: "?good ((entry, n) # entries) call" if "?good entries call" for call
    using that by auto
  show ?case
  proof (cases "?ign ?rel")
    case True
    with st have st: "some_test ignorePatterns ?rel w = (True, w)" by simp
    with 3(5) have "collectLoop baseDir currentDir names entries ignorePatterns paths w = (r, w')"
      by (simp add: Let_def)
    from "3.IH"(1) [OF refl refl st [symmetric] refl this pl]
    obtain calls where "fscalls w' = fscalls w @ calls" "\<forall>call \<in> set calls. ?good entries call"
      by blast
    with later show ?thesis by blast
  next
    case False
    with st have st: "some_test ignorePatterns ?rel w = (False, w)" by simp
    have here: "?good ((entry, n) # entries) (Stat ?full ok)" for ok
    proof -
      have "(entry, n) \<in> set ((entry, n) # entries) \<and>
          pathOf (Stat ?full ok) = pathBelow currentDir (entry # []) \<and>
          visibleFrom ?ign names (entry # []) \<and> nodesAt n [] \<noteq> []"
        using False by (simp add: pathBelow_Cons pathBelow_Nil visibleFrom_Cons visibleFrom_Nil)
      then show ?thesis by blast
    qed
    have inside: "?good ((entry, n) # entries) call"
      if "\<exists>ms. pathOf call = pathBelow ?full ms \<and>
          visibleFrom ?ign (names @ [entry]) ms \<and> nodesAt n ms \<noteq> []" for call
    proof -
      from that obtain ms where "pathOf call = pathBelow ?full ms"
        "visibleFrom ?ign (names @ [entry]) ms" "nodesAt n ms \<noteq> []" by blast
      with False have "(entry, n) \<in> set ((entry, n) # entries) \<and>
          pathOf call = pathBelow currentDir (entry # ms) \<and>
          visibleFrom ?ign names (entry # ms) \<and> nodesAt n ms \<noteq> []"
        by (simp add: pathBelow_Cons visibleFrom_Cons)
      then show ?thesis by blast
    qed
    show ?thesis
    proof (cases "n = Dangling")
      case True
      with st 3(5) have "w' = logcall (Stat ?full False) w"
        by (auto simp: Let_def)
      then have "fscalls w' = fscalls w @ [Stat ?full False]" by (simp add: logcall_def)
      moreover from here [of False]
      have "\<forall>call \<in> set [Stat ?full False]. ?good ((entry, n) # entries) call" by simp
      ultimately show ?thesis by blast
    next
      case live: False
      let ?w2 = "logcall (Stat ?full True) w"
      have w2: "fscalls ?w2 = fscalls w @ [Stat ?full True]" by (simp add: logcall_def)
      show ?thesis
      proof (cases "n = File")
        case True
        have stat: "(Inr False, ?w2) = statSync ?full n w" using True by simp
        from st True 3(5)
        have "collectLoop baseDir currentDir names entries ignorePatterns (paths @ [?rel]) ?w2
            = (r, w')"
          by (simp add: Let_def)
        from "3.IH"(4) [OF refl refl st [symmetric] refl stat refl refl this pl]
        obtain calls where calls: "fscalls w' = fscalls ?w2 @ calls"
          "\<forall>call \<in> set calls. ?good entries call" by blast
        from calls(1) w2 have "fscalls w' = fscalls w @ (Stat ?full True # calls)" by simp
        moreover from calls(2) later here [of True]
        have "\<forall>call \<in> set (Stat ?full True # calls). ?good ((entry, n) # entries) call"
          by simp
        ultimately show ?thesis by blast
      next
        case dir: False
        have stat: "(Inr True, ?w2) = statSync ?full n w"
          using live dir by (cases n) simp_all
        obtain r3 w3 where sub:
          "collectPaths baseDir ?full (names @ [entry]) n ignorePatterns ?w2 = (r3, w3)"
          by (cases "collectPaths baseDir ?full (names @ [entry]) n ignorePatterns ?w2")
        from "3.IH"(2) [OF refl refl st [symmetric] refl stat refl refl sub pl]
        obtain c1 where c1: "fscalls w3 = fscalls ?w2 @ c1"
          "\<forall>call \<in> set c1. \<exists>ms. pathOf call = pathBelow ?full ms \<and>
              visibleFrom ?ign (names @ [entry]) ms \<and> nodesAt n ms \<noteq> []"
          by blast
        from c1(2) inside have g1: "\<forall>call \<in> set c1. ?good ((entry, n) # entries) call"
          by blast
        have unfold: "collectLoop baseDir currentDir names ((entry, n) # entries) ignorePatterns
              paths w =
            (case r3 of
               Inl e \<Rightarrow> (Inl e, w3)
             | Inr sub \<Rightarrow>
                 collectLoop baseDir currentDir names entries ignorePatterns (paths @ sub) w3)"
          using st stat [symmetric] sub by (simp add: Let_def)
        show ?thesis
        proof (cases r3)
          case (Inl e)
          with unfold 3(5) have "w' = w3" by auto
          with c1(1) w2 have "fscalls w' = fscalls w @ (Stat ?full True # c1)" by simp
          moreover from g1 here [of True]
          have "\<forall>call \<in> set (Stat ?full True # c1). ?good ((entry, n) # entries) call"
            by simp
          ultimately show ?thesis by blast
        next
          case (Inr found)
          with unfold 3(5)
          have "collectLoop baseDir currentDir names entries ignorePatterns (paths @ found) w3
              = (r, w')"
            by simp
          from "3.IH"(3) [OF refl refl st [symmetric] refl stat refl refl sub [symmetric] Inr
              this pl]
          obtain c2 where c2: "fscalls w' = fscalls w3 @ c2"
            "\<forall>call \<in> set c2. ?good entries call" by blast
          from c1(1) c2(1) w2 have "fscalls w' = fscalls w @ (Stat ?full True # c1 @ c2)"
            by simp
          moreover from g1 c2(2) later here [of True]
          have "\<forall>call \<in> set (Stat ?full True # c1 @ c2). ?good ((entry, n) # entries) call"
            by auto
          ultimately show ?thesis by blast
        qed
      qed
    qed
  qed
qed

lemma visible_path_clear:
  assumes names: "\<forall>m \<in> set ms. slash \<notin> set m"
    and "ms \<noteq> []" and vis: "visibleFrom ign [] ms" and q: "ign q"
  shows "pathString ms \<noteq> q \<and> \<not> underneath q (pathString ms)"
proof
  from \<open>ms \<noteq> []\<close> have "length ms \<in> {1..length ms}" by (cases ms) auto
  with vis have "\<not> ign (pathString ms)" unfolding visibleFrom_def by fastforce
  with q show "pathString ms \<noteq> q" by blast
next
  show "\<not> underneath q (pathString ms)"
  proof
    assume "underneath q (pathString ms)"
    then have "pathString ms = q @ slash # drop (Suc (length q)) (pathString ms)"
      unfolding underneath_def
      by (metis append_take_drop_id append_assoc append_Cons append_Nil)
    from separator_is_boundary [OF names this]
    obtain k where "1 \<le> k" "k < length ms" "pathString (take k ms) = q" by blast
    with vis have "\<not> ign q" unfolding visibleFrom_def by fastforce
    with q show False by blast
  qed
qed

lemma snapshot_clear:
  assumes pl: "list_all plain res" and wn: "wellNamed n"
    and run: "collectPaths b c [] n res w = (Inr ps, w')"
    and q: "ignored res q" and p: "p \<in> set ps"
  shows "p \<noteq> q \<and> \<not> underneath q p"
proof -
  from collect_plain(1) [OF pl, of b c "[]" n w] run
  have pure: "visibleFiles c (ignored res) [] n = Inr ps" by simp
  from visibleFiles_mem [OF pure, of p] p
  obtain ms where ms: "fileAt n ms" "visibleFrom (ignored res) [] ms" "p = pathString ms"
    by auto
  from pure have "n \<noteq> File" by auto
  with ms(1) have "ms \<noteq> []" by (auto simp: fileAt_Nil)
  moreover from ms(1) wn have "\<forall>m \<in> set ms. slash \<notin> set m"
    unfolding fileAt_def by (rule nodesAt_wellNamed [rotated])
  ultimately show ?thesis
    using visible_path_clear [OF _ _ ms(2) q] ms(3) by blast
qed

lemma collect_independent:
  assumes "list_all plain res"
    and "collectPaths b c ns n res w = (Inr ps, w1)"
  shows "\<exists>v1. collectPaths b c ns n res v = (Inr ps, v1)"
proof -
  from collect_plain(1) [OF assms(1), of b c ns n w] assms(2)
  have "visibleFiles c (ignored res) ns n = Inr ps" by simp
  with collect_plain(1) [OF assms(1), of b c ns n v]
  have "fst (collectPaths b c ns n res v) = Inr ps" by simp
  then show ?thesis by (cases "collectPaths b c ns n res v") auto
qed

text \<open>
  What pruning amounts to when no pattern carries a state (every pattern is a string or a
  \<open>RegExp\<close> without the \<open>g\<close> and \<open>y\<close> flags): for a path \<open>q\<close> that one of the
  patterns matches, no bucket holds \<open>q\<close> or a path underneath \<open>q\<close>, and every call of
  \<open>readdirSync\<close> and \<open>statSync\<close> the comparison makes is at an entry below one of the roots
  that the patterns leave visible, so a matching entry is never resolved and a matching
  directory is never listed.
\<close>

theorem stateless_patterns_prune:
  assumes "list_all stateless ignorePatterns"
    and "wellNamed (fs dir1)" and "wellNamed (fs dir2)"
    and "fst (compareDirectories compile fs dir1 dir2 ignorePatterns w) = Inr diff"
    and "\<exists>p \<in> set ignorePatterns. patternMatches compile p q"
  shows "\<exists>first second both calls.
           onlyInFirst diff = map (join dir1) first \<and>
           onlyInSecond diff = map (join dir2) second \<and>
           inBoth diff = map (join dir1) both \<and>
           (\<forall>path \<in> set first \<union> set second \<union> set both. path \<noteq> q \<and> \<not> underneath q path) \<and>
           fscalls (snd (compareDirectories compile fs dir1 dir2 ignorePatterns w))
             = fscalls w @ calls \<and>
           (\<forall>call \<in> set calls. \<exists>names.
              visible (\<lambda>path. \<exists>p \<in> set ignorePatterns. patternMatches compile p path) names \<and>
              (pathOf call = pathBelow dir1 names \<and> nodesAt (fs dir1) names \<noteq> [] \<or>
               pathOf call = pathBelow dir2 names \<and> nodesAt (fs dir2) names \<noteq> []))"
proof -
  from compareDirectories_returns [OF assms(4)]
  obtain regexPatterns snapshot1 w1 snapshot2 w2 where
    pats: "mapE (toRegExp compile) ignorePatterns = Inr regexPatterns"
    and run1: "collectPaths dir1 dir1 [] (fs dir1) regexPatterns w = (Inr snapshot1, w1)"
    and run2: "collectPaths dir2 dir2 [] (fs dir2) regexPatterns w1 = (Inr snapshot2, w2)"
    and ret: "compareDirectories compile fs dir1 dir2 ignorePatterns w = (Inr diff, w2)"
    and lists: "onlyInFirst diff =
      map (join dir1) (filter (\<lambda>path. path \<notin> set snapshot2) (sort snapshot1))"
      "onlyInSecond diff =
      map (join dir2) (filter (\<lambda>path. path \<notin> set snapshot1) (sort snapshot2))"
      "inBoth diff =
      map (join dir1) (filter (\<lambda>path. path \<in> set snapshot2) (sort snapshot1))"
    by blast
  let ?first = "filter (\<lambda>path. path \<notin> set snapshot2) (sort snapshot1)"
  let ?second = "filter (\<lambda>path. path \<notin> set snapshot1) (sort snapshot2)"
  let ?both = "filter (\<lambda>path. path \<in> set snapshot2) (sort snapshot1)"
  let ?ign = "\<lambda>path. \<exists>p \<in> set ignorePatterns. patternMatches compile p path"
  have pl: "list_all plain regexPatterns"
    using assms(1) pats by (rule mapE_toRegExp_plain)
  have ign: "ignored regexPatterns = ?ign"
    by (rule ext) (rule ignored_patternMatches [OF pats])
  have q: "ignored regexPatterns q" using assms(5) unfolding ign .
  have "set ?first \<union> set ?second \<union> set ?both \<subseteq> set snapshot1 \<union> set snapshot2" by auto
  moreover have "\<forall>path \<in> set snapshot1. path \<noteq> q \<and> \<not> underneath q path"
    using snapshot_clear [OF pl assms(2) run1 q] by blast
  moreover have "\<forall>path \<in> set snapshot2. path \<noteq> q \<and> \<not> underneath q path"
    using snapshot_clear [OF pl assms(3) run2 q] by blast
  ultimately have clear: "\<forall>path \<in> set ?first \<union> set ?second \<union> set ?both.
      path \<noteq> q \<and> \<not> underneath q path" by blast
  from collect_calls_visible(1) [OF pl run1]
  obtain c1 where c1: "fscalls w1 = fscalls w @ c1"
    "\<forall>call \<in> set c1. \<exists>ms. pathOf call = pathBelow dir1 ms \<and>
        visibleFrom (ignored regexPatterns) [] ms \<and> nodesAt (fs dir1) ms \<noteq> []" by blast
  from collect_calls_visible(1) [OF pl run2]
  obtain c2 where c2: "fscalls w2 = fscalls w1 @ c2"
    "\<forall>call \<in> set c2. \<exists>ms. pathOf call = pathBelow dir2 ms \<and>
        visibleFrom (ignored regexPatterns) [] ms \<and> nodesAt (fs dir2) ms \<noteq> []" by blast
  have calls: "fscalls (snd (compareDirectories compile fs dir1 dir2 ignorePatterns w))
      = fscalls w @ (c1 @ c2)"
    using ret c1(1) c2(1) by simp
  have "\<forall>call \<in> set (c1 @ c2). \<exists>names. visible ?ign names \<and>
      (pathOf call = pathBelow dir1 names \<and> nodesAt (fs dir1) names \<noteq> [] \<or>
       pathOf call = pathBelow dir2 names \<and> nodesAt (fs dir2) names \<noteq> [])"
    using c1(2) c2(2) unfolding ign visible_visibleFrom by auto
  with lists clear calls show ?thesis by blast
qed

text \<open>
  With the pattern \<open>^b$\<close> the directory \<open>b\<close> of the sample roots is neither resolved nor
  listed.
\<close>

lemma pruned_run:
  "fst (compareDirectories sampleEngine sampleFs (js ''dir1'') (js ''dir2'')
          [PString (js ''^b$'')] world0) = Inr identicalDiff"
  "fscalls (snd (compareDirectories sampleEngine sampleFs (js ''dir1'') (js ''dir2'')
          [PString (js ''^b$'')] world0))
     = [Readdir (js ''dir1'') True, Stat (js ''dir1/a.txt'') True,
        Readdir (js ''dir2'') True, Stat (js ''dir2/a.txt'') True]"
  by code_simp+

text \<open>
  A directory compared with itself under stateless patterns: the first two buckets are
  empty and the third holds the files of the directory that the patterns leave visible.
\<close>

theorem stateless_self_comparison:
  assumes "list_all stateless ignorePatterns"
    and "fst (compareDirectories compile fs dir dir ignorePatterns w) = Inr diff"
  shows "onlyInFirst diff = [] \<and> onlyInSecond diff = [] \<and>
         (\<exists>regexPatterns snapshot w1.
            mapE (toRegExp compile) ignorePatterns = Inr regexPatterns \<and>
            collectPaths dir dir [] (fs dir) regexPatterns w = (Inr snapshot, w1) \<and>
            inBoth diff = map (join dir) (sort snapshot) \<and>
            set snapshot =
              {pathString names | names.
                 fileAt (fs dir) names \<and>
                 visible (\<lambda>path. \<exists>p \<in> set ignorePatterns. patternMatches compile p path) names})"
proof -
  from compareDirectories_returns [OF assms(2)]
  obtain regexPatterns snapshot1 w1 snapshot2 w2 where
    pats: "mapE (toRegExp compile) ignorePatterns = Inr regexPatterns"
    and run1: "collectPaths dir dir [] (fs dir) regexPatterns w = (Inr snapshot1, w1)"
    and run2: "collectPaths dir dir [] (fs dir) regexPatterns w1 = (Inr snapshot2, w2)"
    and first: "onlyInFirst diff =
      map (join dir) (filter (\<lambda>path. path \<notin> set snapshot2) (sort snapshot1))"
    and second: "onlyInSecond diff =
      map (join dir) (filter (\<lambda>path. path \<notin> set snapshot1) (sort snapshot2))"
    and both: "inBoth diff =
      map (join dir) (filter (\<lambda>path. path \<in> set snapshot2) (sort snapshot1))"
    by blast
  have pl: "list_all plain regexPatterns"
    using assms(1) pats by (rule mapE_toRegExp_plain)
  from collect_plain(1) [OF pl, of dir dir "[]" "fs dir" w] run1
  have pure: "visibleFiles dir (ignored regexPatterns) [] (fs dir) = Inr snapshot1" by simp
  from collect_plain(1) [OF pl, of dir dir "[]" "fs dir" w1] run2 pure
  have same: "snapshot2 = snapshot1" by simp
  have f: "onlyInFirst diff = []" unfolding first same by simp
  have s: "onlyInSecond diff = []" unfolding second same by simp
  have b: "inBoth diff = map (join dir) (sort snapshot1)"
    unfolding both same by simp
  have ign: "ignored regexPatterns =
      (\<lambda>path. \<exists>p \<in> set ignorePatterns. patternMatches compile p path)"
    by (rule ext) (rule ignored_patternMatches [OF pats])
  have "set snapshot1 =
      {pathString names | names. fileAt (fs dir) names \<and> visible (ignored regexPatterns) names}"
    using visibleFiles_mem [OF pure]
    by (auto simp: visible_visibleFrom)
  with f s b pats run1 show ?thesis unfolding ign by blast
qed

text \<open>
  Swapping the roots under stateless patterns swaps the first two buckets; the third
  holds the same relative paths, joined to the other root.
\<close>

theorem stateless_comparison_symmetry:
  assumes "list_all stateless ignorePatterns"
    and "fst (compareDirectories compile fs dirA dirB ignorePatterns w) = Inr diff"
  shows "\<exists>swapped firstA secondB bothAB bothBA.
           fst (compareDirectories compile fs dirB dirA ignorePatterns w') = Inr swapped \<and>
           onlyInFirst diff = map (join dirA) firstA \<and>
           onlyInSecond swapped = map (join dirA) firstA \<and>
           onlyInSecond diff = map (join dirB) secondB \<and>
           onlyInFirst swapped = map (join dirB) secondB \<and>
           inBoth diff = map (join dirA) bothAB \<and>
           inBoth swapped = map (join dirB) bothBA \<and>
           set bothAB = set bothBA"
proof -
  from compareDirectories_returns [OF assms(2)]
  obtain regexPatterns snapshot1 w1 snapshot2 w2 where
    pats: "mapE (toRegExp compile) ignorePatterns = Inr regexPatterns"
    and run1: "collectPaths dirA dirA [] (fs dirA) regexPatterns w = (Inr snapshot1, w1)"
    and run2: "collectPaths dirB dirB [] (fs dirB) regexPatterns w1 = (Inr snapshot2, w2)"
    and first: "onlyInFirst diff =
      map (join dirA) (filter (\<lambda>path. path \<notin> set snapshot2) (sort snapshot1))"
    and second: "onlyInSecond diff =
      map (join dirB) (filter (\<lambda>path. path \<notin> set snapshot1) (sort snapshot2))"
    and both: "inBoth diff =
      map (join dirA) (filter (\<lambda>path. path \<in> set snapshot2) (sort snapshot1))"
    by blast
  have pl: "list_all plain regexPatterns"
    using assms(1) pats by (rule mapE_toRegExp_plain)
  from collect_independent [OF pl run2, of w']
  obtain v1 where back1:
    "collectPaths dirB dirB [] (fs dirB) regexPatterns w' = (Inr snapshot2, v1)"
    by blast
  from collect_independent [OF pl run1, of v1]
  obtain v2 where back2:
    "collectPaths dirA dirA [] (fs dirA) regexPatterns v1 = (Inr snapshot1, v2)"
    by blast
  let ?firstA = "filter (\<lambda>path. path \<notin> set snapshot2) (sort snapshot1)"
  let ?secondB = "filter (\<lambda>path. path \<notin> set snapshot1) (sort snapshot2)"
  let ?bothAB = "filter (\<lambda>path. path \<in> set snapshot2) (sort snapshot1)"
  let ?bothBA = "filter (\<lambda>path. path \<in> set snapshot1) (sort snapshot2)"
  let ?swapped = "\<lparr> onlyInFirst = map (join dirB) ?secondB,
          onlyInSecond = map (join dirA) ?firstA,
          inBoth = map (join dirB) ?bothBA \<rparr>"
  have swapped: "fst (compareDirectories compile fs dirB dirA ignorePatterns w') = Inr ?swapped"
    by (rule compareDirectories_runs [OF pats back1 back2])
  have "set ?bothAB = set ?bothBA" by auto
  then have "fst (compareDirectories compile fs dirB dirA ignorePatterns w') = Inr ?swapped \<and>
           onlyInFirst diff = map (join dirA) ?firstA \<and>
           onlyInSecond ?swapped = map (join dirA) ?firstA \<and>
           onlyInSecond diff = map (join dirB) ?secondB \<and>
           onlyInFirst ?swapped = map (join dirB) ?secondB \<and>
           inBoth diff = map (join dirA) ?bothAB \<and>
           inBoth ?swapped = map (join dirB) ?bothBA \<and>
           set ?bothAB = set ?bothBA"
    using swapped first second both by simp
  then show ?thesis by blast
qed

text \<open>
  The three theorems above at the sample roots: with the pattern \<open>^b$\<close>, a directory
  compared with itself, and the sample comparison with its roots swapped.
\<close>

lemma self_run:
  "fst (compareDirectories sampleEngine sampleFs (js ''dir1'') (js ''dir1'')
          [PString (js ''^b$'')] world0) = Inr identicalDiff"
  by code_simp

lemma swapped_run:
  "fst (compareDirectories sampleEngine sampleFs (js ''dir2'') (js ''dir1'') [] world0)
     = Inr \<lparr> onlyInFirst = [js ''dir2/b/d.txt''], onlyInSecond = [js ''dir1/b/c.txt''],
             inBoth = [js ''dir2/a.txt''] \<rparr>"
  by code_simp

lemma stateless_patterns_prune_example:
  "list_all stateless [PString (js ''^b$'')] \<and>
   wellNamed (sampleFs (js ''dir1'')) \<and> wellNamed (sampleFs (js ''dir2'')) \<and>
   patternMatches sampleEngine (PString (js ''^b$'')) (js ''b'') \<and>
   fst (compareDirectories sampleEngine sampleFs (js ''dir1'') (js ''dir2'')
          [PString (js ''^b$'')] world0) = Inr identicalDiff \<and>
   (\<exists>first second both.
      onlyInFirst identicalDiff = map (join (js ''dir1'')) first \<and>
      onlyInSecond identicalDiff = map (join (js ''dir2'')) second \<and>
      inBoth identicalDiff = map (join (js ''dir1'')) both \<and>
      (\<forall>path \<in> set first \<union> set second \<union> set both.
         path \<noteq> js ''b'' \<and> \<not> underneath (js ''b'') path)) \<and>
   fscalls (snd (compareDirectories sampleEngine sampleFs (js ''dir1'') (js ''dir2'')
          [PString (js ''^b$'')] world0))
     = [Readdir (js ''dir1'') True, Stat (js ''dir1/a.txt'') True,
        Readdir (js ''dir2'') True, Stat (js ''dir2/a.txt'') True] \<and>
   (\<exists>names.
      visible (\<lambda>path. \<exists>p \<in> set [PString (js ''^b$'')]. patternMatches sampleEngine p path)
        names \<and>
      (js ''dir2/a.txt'' = pathBelow (js ''dir1'') names \<and>
         nodesAt (sampleFs (js ''dir1'')) names \<noteq> [] \<or>
       js ''dir2/a.txt'' = pathBelow (js ''dir2'') names \<and>
         nodesAt (sampleFs (js ''dir2'')) names \<noteq> []))"
proof -
  let ?run = "compareDirectories sampleEngine sampleFs (js ''dir1'') (js ''dir2'')
          [PString (js ''^b$'')] world0"
  let ?ign = "\<lambda>path. \<exists>p \<in> set [PString (js ''^b$'')]. patternMatches sampleEngine p path"
  have a: "list_all stateless [PString (js ''^b$'')]" by simp
  have b: "wellNamed (sampleFs (js ''dir1''))" by (simp add: sampleFs_def js_def slash_def)
  have c: "wellNamed (sampleFs (js ''dir2''))" by (simp add: sampleFs_def js_def slash_def)
  have d: "patternMatches sampleEngine (PString (js ''^b$'')) (js ''b'')"
    by (simp add: sampleEngine_def js_def)
  then have d': "\<exists>p \<in> set [PString (js ''^b$'')]. patternMatches sampleEngine p (js ''b'')"
    by simp
  from stateless_patterns_prune [OF a b c pruned_run(1) d']
  obtain first second both calls where
    lists: "onlyInFirst identicalDiff = map (join (js ''dir1'')) first"
      "onlyInSecond identicalDiff = map (join (js ''dir2'')) second"
      "inBoth identicalDiff = map (join (js ''dir1'')) both"
      "\<forall>path \<in> set first \<union> set second \<union> set both.
         path \<noteq> js ''b'' \<and> \<not> underneath (js ''b'') path"
    and calls: "fscalls (snd ?run) = fscalls world0 @ calls"
    and vis: "\<forall>call \<in> set calls. \<exists>names. visible ?ign names \<and>
        (pathOf call = pathBelow (js ''dir1'') names \<and>
           nodesAt (sampleFs (js ''dir1'')) names \<noteq> [] \<or>
         pathOf call = pathBelow (js ''dir2'') names \<and>
           nodesAt (sampleFs (js ''dir2'')) names \<noteq> [])"
    by blast
  from calls pruned_run(2) have "Stat (js ''dir2/a.txt'') True \<in> set calls"
    by (simp add: world0_def)
  with vis have "\<exists>names. visible ?ign names \<and>
        (js ''dir2/a.txt'' = pathBelow (js ''dir1'') names \<and>
           nodesAt (sampleFs (js ''dir1'')) names \<noteq> [] \<or>
         js ''dir2/a.txt'' = pathBelow (js ''dir2'') names \<and>
           nodesAt (sampleFs (js ''dir2'')) names \<noteq> [])"
    by fastforce
  with a b c d pruned_run lists show ?thesis by blast
qed

lemma stateless_self_comparison_example:
  "list_all stateless [PString (js ''^b$'')] \<and>
   fst (compareDirectories sampleEngine sampleFs (js ''dir1'') (js ''dir1'')
          [PString (js ''^b$'')] world0) = Inr identicalDiff \<and>
   onlyInFirst identicalDiff = [] \<and> onlyInSecond identicalDiff = [] \<and>
   (\<exists>regexPatterns snapshot w1.
      mapE (toRegExp sampleEngine) [PString (js ''^b$'')] = Inr regexPatterns \<and>
      collectPaths (js ''dir1'') (js ''dir1'') [] (sampleFs (js ''dir1'')) regexPatterns world0
        = (Inr snapshot, w1) \<and>
      inBoth identicalDiff = map (join (js ''dir1'')) (sort snapshot) \<and>
      set snapshot =
        {pathString names | names.
           fileAt (sampleFs (js ''dir1'')) names \<and>
           visible (\<lambda>path. \<exists>p \<in> set [PString (js ''^b$'')].
                      patternMatches sampleEngine p path) names})"
proof -
  have a: "list_all stateless [PString (js ''^b$'')]" by simp
  from stateless_self_comparison [OF a self_run] a self_run show ?thesis by blast
qed

lemma stateless_comparison_symmetry_example:
  "list_all stateless [] \<and>
   fst (compareDirectories sampleEngine sampleFs (js ''dir1'') (js ''dir2'') [] world0)
     = Inr sampleDiff \<and>
   (\<exists>swapped firstA secondB bothAB bothBA.
      fst (compareDirectories sampleEngine sampleFs (js ''dir2'') (js ''dir1'') [] world0)
        = Inr swapped \<and>
      swapped = \<lparr> onlyInFirst = [js ''dir2/b/d.txt''], onlyInSecond = [js ''dir1/b/c.txt''],
                   inBoth = [js ''dir2/a.txt''] \<rparr> \<and>
      onlyInFirst sampleDiff = map (join (js ''dir1'')) firstA \<and>
      onlyInSecond swapped = map (join (js ''dir1'')) firstA \<and>
      onlyInSecond sampleDiff = map (join (js ''dir2'')) secondB \<and>
      onlyInFirst swapped = map (join (js ''dir2'')) secondB \<and>
      inBoth sampleDiff = map (join (js ''dir1'')) bothAB \<and>
      inBoth swapped = map (join (js ''dir2'')) bothBA \<and>
      set bothAB = set bothBA)"
proof -
  have a: "list_all stateless []" by simp
  from stateless_comparison_symmetry [OF a sample_run, of world0] swapped_run sample_run
  show ?thesis by (simp add: sampleDiff_def)
qed

section \<open>Patterns that carry a state\<close>

text \<open>
  \<open>ignorePatterns.some(p => p.test(relativePath))\<close> calls \<open>test\<close> on the \<open>RegExp\<close> objects
  of the caller. An object with the \<open>g\<close> or \<open>y\<close> flag starts each search at its
  \<open>lastIndex\<close>, which a successful \<open>test\<close> leaves behind the match. The roots \<open>A\<close> and \<open>B\<close>
  below each hold the single file \<open>a\<close>, and the pattern is \<open>/a/g\<close>.
\<close>

text \<open>
  Claim C2. Entries whose relative path matches an ignore pattern are skipped, and a
  matching directory is not descended into. At the input
  \<open>compareDirectories('A', 'B', [/a/g])\<close> the code does otherwise: the pattern matches
  the path \<open>a\<close>, the entry \<open>a\<close> of \<open>A\<close> is skipped, but the entry \<open>a\<close> of \<open>B\<close> is resolved
  with \<open>statSync\<close> and reported as \<open>B/a\<close> in \<open>onlyInSecond\<close>.
\<close>

theorem global_pattern_leaks:
  "patternMatches sampleEngine (PRegExp (Global 0 literal_a)) (js ''a'') \<and>
   fileAt (twinFs (js ''B'')) [js ''a''] \<and>
   fst (compareDirectories sampleEngine twinFs (js ''A'') (js ''B'')
          [PRegExp (Global 0 literal_a)] world0)
     = Inr \<lparr> onlyInFirst = [], onlyInSecond = [js ''B/a''], inBoth = [] \<rparr> \<and>
   fscalls (snd (compareDirectories sampleEngine twinFs (js ''A'') (js ''B'')
          [PRegExp (Global 0 literal_a)] world0))
     = [Readdir (js ''A'') True, Readdir (js ''B'') True, Stat (js ''B/a'') True]"
  by code_simp

text \<open>
  Claim C4. Comparing a directory with itself gives empty \<open>onlyInFirst\<close> and
  \<open>onlyInSecond\<close>. At the input \<open>compareDirectories('A', 'A', [/a/g])\<close> the code does
  otherwise: the first traversal skips the file \<open>a\<close>, the second one collects it, and
  \<open>onlyInSecond\<close> is \<open>['A/a']\<close>.
\<close>

theorem global_pattern_self_comparison:
  "fst (compareDirectories sampleEngine twinFs (js ''A'') (js ''A'')
          [PRegExp (Global 0 literal_a)] world0)
     = Inr \<lparr> onlyInFirst = [], onlyInSecond = [js ''A/a''], inBoth = [] \<rparr> \<and>
   fileAt (twinFs (js ''A'')) [js ''a'']"
  by code_simp

text \<open>
  Claim C5. Swapping the two directories swaps \<open>onlyInFirst\<close> and \<open>onlyInSecond\<close>. At
  the inputs \<open>compareDirectories('A', 'B', [/a/g])\<close> and
  \<open>compareDirectories('B', 'A', [/a/g])\<close> the code does otherwise: the first comparison
  has \<open>onlyInFirst = []\<close> and \<open>onlyInSecond = ['B/a']\<close>, and the swapped one has
  \<open>onlyInFirst = []\<close> and \<open>onlyInSecond = ['A/a']\<close> instead of \<open>['B/a']\<close> and \<open>[]\<close>.
\<close>

theorem global_pattern_asymmetry:
  "fst (compareDirectories sampleEngine twinFs (js ''A'') (js ''B'')
          [PRegExp (Global 0 literal_a)] world0)
     = Inr \<lparr> onlyInFirst = [], onlyInSecond = [js ''B/a''], inBoth = [] \<rparr> \<and>
   fst (compareDirectories sampleEngine twinFs (js ''B'') (js ''A'')
          [PRegExp (Global 0 literal_a)] world0)
     = Inr \<lparr> onlyInFirst = [], onlyInSecond = [js ''A/a''], inBoth = [] \<rparr>"
  by code_simp

section \<open>Failures of the file system\<close>

lemma failFast_after:
  "list_all succeeded pre \<Longrightarrow> failFast r calls \<Longrightarrow> failFast r (pre @ calls)"
  by (cases r) (auto simp: butlast_append)

lemma collect_failFast:
  "collectPaths b c ns n ps w = (r, w') \<Longrightarrow>
     \<exists>calls. fscalls w' = fscalls w @ calls \<and> failFast r calls"
  "collectLoop b c ns es ps acc w = (r, w') \<Longrightarrow>
     \<exists>calls. fscalls w' = fscalls w @ calls \<and> failFast r calls"
proof (induction b c ns n ps w and b c ns es ps acc w arbitrary: r w' and r w'
    rule: collectPaths_collectLoop.induct)
  case (1 baseDir currentDir names n ignorePatterns w)
  let ?path = "currentDir"
  show ?case
  proof (cases "\<exists>entries. n = Dir entries")
    case True
    then obtain entries where n: "n = Dir entries" by blast
    let ?w1 = "logcall (Readdir ?path True) w"
    have rd: "(Inr entries, ?w1) = readdirSync ?path n w" using n by simp
    from 1(2) n have "collectLoop baseDir currentDir names entries ignorePatterns [] ?w1 = (r, w')"
      by (simp add: collectPaths.simps)
    from "1.IH" [OF rd refl this]
    obtain calls where "fscalls w' = fscalls ?w1 @ calls" "failFast r calls" by blast
    then have "fscalls w' = fscalls w @ ([Readdir ?path True] @ calls) \<and>
        failFast r ([Readdir ?path True] @ calls)"
      using failFast_after [of "[Readdir ?path True]" r calls] by (simp add: logcall_def)
    then show ?thesis by blast
  next
    case False
    then have "readdirSync ?path n w = (Inl (FilesystemError ?path), logcall (Readdir ?path False) w)"
      by (cases n) auto
    with 1(2) have "r = Inl (FilesystemError ?path)" "w' = logcall (Readdir ?path False) w"
      by (auto simp: collectPaths.simps)
    then have "fscalls w' = fscalls w @ [Readdir ?path False] \<and> failFast r [Readdir ?path False]"
      by (simp add: logcall_def)
    then show ?thesis by blast
  qed
next
  case (2 baseDir currentDir names ignorePatterns paths w)
  then have "fscalls w' = fscalls w @ [] \<and> failFast r []" by auto
  then show ?case by blast
next
  case (3 baseDir currentDir names entry n entries ignorePatterns paths w)
  let ?rel = "pathString (names @ [entry])"
  let ?full = "join currentDir entry"
  obtain b1 w1 where st: "some_test ignorePatterns ?rel w = (b1, w1)"
    by (cases "some_test ignorePatterns ?rel w")
  from some_test_calls [OF st] have w1: "fscalls w1 = fscalls w" .
  show ?case
  proof (cases b1)
    case True
    with st have st: "some_test ignorePatterns ?rel w = (True, w1)" by simp
    with 3(5) have "collectLoop baseDir currentDir names entries ignorePatterns paths w1 = (r, w')"
      by (simp add: Let_def)
    from "3.IH"(1) [OF refl refl st [symmetric] refl this] w1
    show ?thesis by simp
  next
    case skip: False
    with st have st: "some_test ignorePatterns ?rel w = (False, w1)" by simp
    show ?thesis
    proof (cases "n = Dangling")
      case True
      with st 3(5)
      have "r = Inl (FilesystemError ?full)" "w' = logcall (Stat ?full False) w1"
        by (auto simp: Let_def)
      then have "fscalls w' = fscalls w @ [Stat ?full False] \<and> failFast r [Stat ?full False]"
        using w1 by (simp add: logcall_def)
      then show ?thesis by blast
    next
      case live: False
      let ?w2 = "logcall (Stat ?full True) w1"
      have w2: "fscalls ?w2 = fscalls w @ [Stat ?full True]"
        using w1 by (simp add: logcall_def)
      show ?thesis
      proof (cases "n = File")
        case True
        have stat: "(Inr False, ?w2) = statSync ?full n w1" using True by simp
        from st True 3(5)
        have "collectLoop baseDir currentDir names entries ignorePatterns (paths @ [?rel]) ?w2 = (r, w')"
          by (simp add: Let_def)
        from "3.IH"(4) [OF refl refl st [symmetric] refl stat refl refl this]
        obtain calls where "fscalls w' = fscalls ?w2 @ calls" "failFast r calls" by blast
        then have "fscalls w' = fscalls w @ ([Stat ?full True] @ calls) \<and>
            failFast r ([Stat ?full True] @ calls)"
          using failFast_after [of "[Stat ?full True]" r calls] w2 by simp
        then show ?thesis by blast
      next
        case dir: False
        have stat: "(Inr True, ?w2) = statSync ?full n w1"
          using live dir by (cases n) simp_all
        obtain r3 w3 where sub:
          "collectPaths baseDir ?full (names @ [entry]) n ignorePatterns ?w2 = (r3, w3)"
          by (cases "collectPaths baseDir ?full (names @ [entry]) n ignorePatterns ?w2")
        from "3.IH"(2) [OF refl refl st [symmetric] refl stat refl refl sub]
        obtain c1 where c1: "fscalls w3 = fscalls ?w2 @ c1" "failFast r3 c1" by blast
        have unfold: "collectLoop baseDir currentDir names ((entry, n) # entries) ignorePatterns paths w =
            (case r3 of
               Inl e \<Rightarrow> (Inl e, w3)
             | Inr sub \<Rightarrow> collectLoop baseDir currentDir names entries ignorePatterns (paths @ sub) w3)"
          using st stat [symmetric] sub by (simp add: Let_def)
        show ?thesis
        proof (cases r3)
          case (Inl e)
          with unfold 3(5) have "r = Inl e" "w' = w3" by auto
          with c1 Inl have "fscalls w' = fscalls w @ ([Stat ?full True] @ c1) \<and>
              failFast r ([Stat ?full True] @ c1)"
            using failFast_after [of "[Stat ?full True]" "Inl e :: error + jsstring list" c1] w2
            by simp
          then show ?thesis by blast
        next
          case (Inr found)
          with unfold 3(5)
          have "collectLoop baseDir currentDir names entries ignorePatterns (paths @ found) w3 = (r, w')"
            by simp
          from "3.IH"(3) [OF refl refl st [symmetric] refl stat refl refl sub [symmetric] Inr this]
          obtain c2 where c2: "fscalls w' = fscalls w3 @ c2" "failFast r c2" by blast
          from c1 Inr have "list_all succeeded ([Stat ?full True] @ c1)" by simp
          from failFast_after [OF this c2(2)] c1(1) c2(1) w2
          have "fscalls w' = fscalls w @ (([Stat ?full True] @ c1) @ c2) \<and>
              failFast r (([Stat ?full True] @ c1) @ c2)"
            by simp
          then show ?thesis by blast
        qed
      qed
    qed
  qed
qed


lemma mapE_toRegExp_valid:
  "\<forall>pat. PString pat \<in> set pats \<longrightarrow> compile pat \<noteq> None \<Longrightarrow>
     \<exists>res. mapE (toRegExp compile) pats = Inr res"
proof (induction pats)
  case Nil
  then show ?case by simp
next
  case (Cons p pats)
  then show ?case
    by (cases p) (auto simp: newRegExp_def split: sum.splits option.splits)
qed

lemma compare_failFast:
  assumes "compareDirectories compile fs dir1 dir2 ignorePatterns w = (result, w')"
  shows "(\<exists>bad. result = Inl (InvalidPatternError bad) \<and> w' = w) \<or>
         (\<exists>calls. fscalls w' = fscalls w @ calls \<and> failFast result calls)"
proof (cases "mapE (toRegExp compile) ignorePatterns")
  case (Inl e)
  from mapE_toRegExp_Inl [OF Inl] obtain bad where "e = InvalidPatternError bad" by blast
  with Inl assms show ?thesis by (auto simp: compareDirectories_def)
next
  case (Inr regexPatterns)
  obtain r1 w1 where run1: "collectPaths dir1 dir1 [] (fs dir1) regexPatterns w = (r1, w1)"
    by (cases "collectPaths dir1 dir1 [] (fs dir1) regexPatterns w")
  from collect_failFast(1) [OF run1]
  obtain c1 where c1: "fscalls w1 = fscalls w @ c1" "failFast r1 c1" by blast
  show ?thesis
  proof (cases r1)
    case (Inl e)
    with Inr run1 assms have "result = Inl e" "w' = w1"
      by (auto simp: compareDirectories_def)
    with c1 Inl show ?thesis by auto
  next
    case first: (Inr snapshot1)
    obtain r2 w2 where run2: "collectPaths dir2 dir2 [] (fs dir2) regexPatterns w1 = (r2, w2)"
      by (cases "collectPaths dir2 dir2 [] (fs dir2) regexPatterns w1")
    from collect_failFast(1) [OF run2]
    obtain c2 where c2: "fscalls w2 = fscalls w1 @ c2" "failFast r2 c2" by blast
    from c1 first have ok1: "list_all succeeded c1" by simp
    show ?thesis
    proof (cases r2)
      case (Inl e)
      with Inr run1 first run2 assms have "result = Inl e" "w' = w2"
        by (auto simp: compareDirectories_def)
      moreover from failFast_after [OF ok1, of "Inl e :: error + DiffResult" c2] c2 Inl
      have "failFast (Inl e :: error + DiffResult) (c1 @ c2)" by simp
      ultimately show ?thesis using c1 c2 by auto
    next
      case second: (Inr snapshot2)
      with Inr run1 first run2 assms obtain diff where "result = Inr diff" "w' = w2"
        by (auto simp: compareDirectories_def Let_def)
      moreover from c2 second ok1 have "list_all succeeded (c1 @ c2)" by simp
      ultimately show ?thesis using c1 c2 by auto
    qed
  qed
qed

lemma visibleFiles_fails:
  "unreadableAt n ms \<Longrightarrow> visibleFrom ign ns ms \<Longrightarrow> \<exists>e. visibleFiles d ign ns n = Inl e"
  "(m, c) \<in> set es \<Longrightarrow> unreadableAt c ms \<Longrightarrow> visibleFrom ign ns (m # ms) \<Longrightarrow>
     \<exists>e. visibleEntries d ign ns es = Inl e"
proof (induction d ign ns n and d ign ns es arbitrary: ms and m c ms
    rule: visibleFiles_visibleEntries.induct)
  case (1 currentDir ign names entries)
  from 1(2) obtain m ms' where ms: "ms = m # ms'"
    by (cases ms) (auto simp: unreadableAt_Nil)
  with 1(2) obtain c where "(m, c) \<in> set entries" "unreadableAt c ms'"
    by (auto simp: unreadableAt_Cons)
  from "1.IH" [OF this] 1(3) ms show ?case by simp
next
  case (6 currentDir ign names entry n entries)
  let ?rel = "pathString (names @ [entry])"
  from 6(5) consider "m = entry" "c = n" | "(m, c) \<in> set entries" by auto
  then show ?case
  proof cases
    case 1
    with 6(7) have vis: "\<not> ign ?rel" "visibleFrom ign (names @ [entry]) ms"
      by (simp_all add: visibleFrom_Cons)
    show ?thesis
    proof (cases "n = Dangling")
      case True
      with vis show ?thesis by simp
    next
      case live: False
      from 6(6) 1 have "n \<noteq> File"
        by (cases ms) (auto simp: unreadableAt_Nil unreadableAt_Cons)
      moreover from "6.IH"(3) [OF vis(1) live this _ vis(2)] 6(6) 1
      obtain e where "visibleFiles (join currentDir entry) ign (names @ [entry]) n = Inl e" by blast
      ultimately show ?thesis using vis live by simp
    qed
  next
    case 2
    show ?thesis
    proof (cases "ign ?rel")
      case True
      from "6.IH"(1) [OF True 2 6(6) 6(7)] True show ?thesis by simp
    next
      case False
      show ?thesis
      proof (cases "n = Dangling")
        case True
        with False show ?thesis by simp
      next
        case live: False
        show ?thesis
        proof (cases "n = File")
          case True
          from "6.IH"(2) [OF False live True 2 6(6) 6(7)] False live True
          show ?thesis by auto
        next
          case dir: False
          show ?thesis
          proof (cases "visibleFiles (join currentDir entry) ign (names @ [entry]) n")
            case (Inl e)
            with False live dir show ?thesis by simp
          next
            case (Inr sub)
            from "6.IH"(4) [OF False live dir Inr 2 6(6) 6(7)] False live dir Inr
            show ?thesis by auto
          qed
        qed
      qed
    qed
  qed
qed simp_all


lemma collect_error_kind:
  "collectPaths b c ns n ps w = (Inl e, w') \<Longrightarrow> \<exists>path. e = FilesystemError path"
  using collect_failFast(1) [of b c ns n ps w "Inl e" w'] by auto

lemma collect_fails:
  assumes pl: "list_all plain res" and bad: "failsAt n names"
    and vis: "visible (ignored res) names"
  shows "\<exists>path w'. collectPaths b c [] n res w = (Inl (FilesystemError path), w')"
proof -
  have "\<exists>e. visibleFiles c (ignored res) [] n = Inl e"
  proof (cases "unreadableAt n names")
    case True
    from visibleFiles_fails(1) [OF True] vis show ?thesis
      by (simp add: visible_visibleFrom)
  next
    case False
    with bad have "n = File" by (simp add: failsAt_def)
    then show ?thesis by simp
  qed
  then obtain e where "fst (collectPaths b c [] n res w) = Inl e"
    using collect_plain(1) [OF pl, of b c "[]" n w] by auto
  then obtain w' where run: "collectPaths b c [] n res w = (Inl e, w')"
    by (cases "collectPaths b c [] n res w") auto
  from collect_error_kind [OF run] run show ?thesis by blast
qed

lemma locked_calls:
  "fscalls (snd (compareDirectories sampleEngine lockedFs (js ''dir1'') (js ''dir2'') [] world0)) =
     [Readdir (js ''dir1'') True, Stat (js ''dir1/a.txt'') True, Stat (js ''dir1/secret'') True,
      Readdir (js ''dir1/secret'') False]"
  by code_simp

text \<open>
  Claim C7. The calls of a comparison account for its result: when a call of
  \<open>readdirSync\<close> or \<open>statSync\<close> made during the traversal fails, the comparison ends with
  the error of that call and returns no \<open>DiffResult\<close>, the failed call is the last one
  made, and all calls before it succeeded. No failure is passed over: with stateless
  patterns that compile, when below one of the roots a call fails at an entry that the
  patterns leave visible (the root itself, a directory that cannot be listed, a path that
  cannot be resolved), the comparison ends with an error of the file system.
\<close>

theorem filesystem_errors_abort:
  "(\<exists>calls. fscalls (snd (compareDirectories compile fs dir1 dir2 ignorePatterns w))
              = fscalls w @ calls \<and>
      (\<forall>call \<in> set calls. \<not> succeeded call \<longrightarrow>
         fst (compareDirectories compile fs dir1 dir2 ignorePatterns w)
           = Inl (FilesystemError (pathOf call)) \<and>
         call = last calls \<and> list_all succeeded (butlast calls))) \<and>
   (list_all stateless ignorePatterns \<and>
    (\<forall>pat. PString pat \<in> set ignorePatterns \<longrightarrow> compile pat \<noteq> None) \<and>
    visible (\<lambda>path. \<exists>p \<in> set ignorePatterns. patternMatches compile p path) names \<and>
    (failsAt (fs dir1) names \<or> failsAt (fs dir2) names)
    \<longrightarrow> (\<exists>path. fst (compareDirectories compile fs dir1 dir2 ignorePatterns w)
                 = Inl (FilesystemError path)))"
proof (intro conjI impI)
  obtain result w' where run:
    "compareDirectories compile fs dir1 dir2 ignorePatterns w = (result, w')"
    by (cases "compareDirectories compile fs dir1 dir2 ignorePatterns w")
  from compare_failFast [OF run]
  consider bad where "result = Inl (InvalidPatternError bad)" "w' = w"
    | calls where "fscalls w' = fscalls w @ calls" "failFast result calls"
    by blast
  then have "\<exists>calls. fscalls w' = fscalls w @ calls \<and>
      (\<forall>call \<in> set calls. \<not> succeeded call \<longrightarrow>
         result = Inl (FilesystemError (pathOf call)) \<and>
         call = last calls \<and> list_all succeeded (butlast calls))"
  proof cases
    case 1
    then have "fscalls w' = fscalls w @ [] \<and>
      (\<forall>call \<in> set []. \<not> succeeded call \<longrightarrow>
         result = Inl (FilesystemError (pathOf call)) \<and>
         call = last [] \<and> list_all succeeded (butlast []))" by simp
    then show ?thesis by blast
  next
    case 2
    have "\<forall>call \<in> set calls. \<not> succeeded call \<longrightarrow>
         result = Inl (FilesystemError (pathOf call)) \<and>
         call = last calls \<and> list_all succeeded (butlast calls)"
    proof (intro ballI impI)
      fix call
      assume call: "call \<in> set calls" "\<not> succeeded call"
      show "result = Inl (FilesystemError (pathOf call)) \<and>
         call = last calls \<and> list_all succeeded (butlast calls)"
      proof (cases result)
        case (Inr diff)
        with 2(2) call show ?thesis by (auto simp: list_all_iff)
      next
        case (Inl e)
        with 2(2) have ff: "calls \<noteq> []" "list_all succeeded (butlast calls)"
          "e = FilesystemError (pathOf (last calls))" by simp_all
        from ff(1) have "calls = butlast calls @ [last calls]" by simp
        with call(1) have "call \<in> set (butlast calls) \<or> call = last calls"
          by (metis Un_iff empty_iff empty_set insert_iff list.simps(15) set_append)
        with ff(2) call(2) have "call = last calls" by (auto simp: list_all_iff)
        with Inl ff show ?thesis by simp
      qed
    qed
    with 2(1) show ?thesis by blast
  qed
  with run show "\<exists>calls. fscalls (snd (compareDirectories compile fs dir1 dir2 ignorePatterns w))
              = fscalls w @ calls \<and>
      (\<forall>call \<in> set calls. \<not> succeeded call \<longrightarrow>
         fst (compareDirectories compile fs dir1 dir2 ignorePatterns w)
           = Inl (FilesystemError (pathOf call)) \<and>
         call = last calls \<and> list_all succeeded (butlast calls))"
    by simp
next
  assume hyp: "list_all stateless ignorePatterns \<and>
    (\<forall>pat. PString pat \<in> set ignorePatterns \<longrightarrow> compile pat \<noteq> None) \<and>
    visible (\<lambda>path. \<exists>p \<in> set ignorePatterns. patternMatches compile p path) names \<and>
    (failsAt (fs dir1) names \<or> failsAt (fs dir2) names)"
  then obtain regexPatterns where pats: "mapE (toRegExp compile) ignorePatterns = Inr regexPatterns"
    using mapE_toRegExp_valid [of ignorePatterns compile] by blast
  have pl: "list_all plain regexPatterns"
    using hyp pats mapE_toRegExp_plain by blast
  have ign: "ignored regexPatterns =
      (\<lambda>path. \<exists>p \<in> set ignorePatterns. patternMatches compile p path)"
    by (rule ext) (rule ignored_patternMatches [OF pats])
  from hyp have vis: "visible (ignored regexPatterns) names" unfolding ign by blast
  obtain r1 w1 where run1: "collectPaths dir1 dir1 [] (fs dir1) regexPatterns w = (r1, w1)"
    by (cases "collectPaths dir1 dir1 [] (fs dir1) regexPatterns w")
  show "\<exists>path. fst (compareDirectories compile fs dir1 dir2 ignorePatterns w)
                 = Inl (FilesystemError path)"
  proof (cases r1)
    case (Inl e)
    with collect_error_kind run1 obtain path where "e = FilesystemError path" by blast
    with Inl pats run1 show ?thesis by (simp add: compareDirectories_def)
  next
    case (Inr snapshot1)
    with collect_fails [OF pl _ vis, of "fs dir1" dir1 dir1 w] run1
    have "\<not> failsAt (fs dir1) names" by auto
    with hyp have "failsAt (fs dir2) names" by blast
    from collect_fails [OF pl this vis, of dir2 dir2 w1]
    obtain path w2 where "collectPaths dir2 dir2 [] (fs dir2) regexPatterns w1
        = (Inl (FilesystemError path), w2)" by blast
    with Inr pats run1 show ?thesis by (simp add: compareDirectories_def)
  qed
qed

theorem filesystem_errors_abort_witness:
  "fscalls (snd (compareDirectories sampleEngine lockedFs (js ''dir1'') (js ''dir2'') [] world0)) =
     fscalls world0 @ [Readdir (js ''dir1'') True, Stat (js ''dir1/a.txt'') True, Stat (js ''dir1/secret'') True,
      Readdir (js ''dir1/secret'') False] \<and>
   \<not> succeeded (Readdir (js ''dir1/secret'') False) \<and>
   fst (compareDirectories sampleEngine lockedFs (js ''dir1'') (js ''dir2'') [] world0)
     = Inl (FilesystemError (js ''dir1/secret'')) \<and>
   list_all stateless [] \<and>
   visible (\<lambda>path. \<exists>p \<in> set []. patternMatches sampleEngine p path) [js ''secret''] \<and>
   failsAt (lockedFs (js ''dir1'')) [js ''secret''] \<and>
   (\<exists>path. fst (compareDirectories sampleEngine lockedFs (js ''dir1'') (js ''dir2'') [] world0)
      = Inl (FilesystemError path))"
proof -
  let ?run = "compareDirectories sampleEngine lockedFs (js ''dir1'') (js ''dir2'') [] world0"
  let ?calls = "[Readdir (js ''dir1'') True, Stat (js ''dir1/a.txt'') True, Stat (js ''dir1/secret'') True,
      Readdir (js ''dir1/secret'') False]"
  have w: "fscalls world0 = []" by (simp add: world0_def)
  have vis: "visible (\<lambda>path. \<exists>p \<in> set []. patternMatches sampleEngine p path) [js ''secret'']"
    by (simp add: visible_def)
  have bad: "failsAt (lockedFs (js ''dir1'')) [js ''secret'']"
    by (simp add: failsAt_def unreadableAt_def lockedFs_def)
  note inst = filesystem_errors_abort [of sampleEngine lockedFs "js ''dir1''" "js ''dir2''" "[]" world0
      "[js ''secret'']"]
  from inst vis bad have static: "\<exists>path. fst ?run = Inl (FilesystemError path)"
    by simp
  from inst obtain calls where calls: "fscalls (snd ?run) = fscalls world0 @ calls"
    and abort: "\<forall>call \<in> set calls. \<not> succeeded call \<longrightarrow>
         fst ?run = Inl (FilesystemError (pathOf call)) \<and>
         call = last calls \<and> list_all succeeded (butlast calls)"
    by blast
  from calls locked_calls w have "calls = ?calls" by simp
  with abort have "fst ?run = Inl (FilesystemError (js ''dir1/secret''))" by simp
  with locked_calls w vis bad static show ?thesis by simp
qed

end
